theory Spec2Isabelle
  imports Main "HOL-Library.Multiset"
begin

section \<open>The paginated-collection resolution engine\<close>

text \<open>
  A shallow embedding of \<^verbatim>\<open>cicd/core/LinkHeaderParser.ts\<close> and of the three
  pagination operations of \<^verbatim>\<open>cicd/core/GitHubClient.ts\<close>.

  JavaScript numbers that hold page numbers and page sizes are modelled as \<open>int\<close>
  (the loss of precision of \<^verbatim>\<open>parseInt\<close> above \<open>2^53\<close> is not modelled), strings as
  \<open>string\<close>. A promise is modelled by its settled value, \<open>Inl\<close> for a rejection. An
  uncaught \<^verbatim>\<open>TypeError\<close> and the \<^verbatim>\<open>Deno.exit(1)\<close> of the engine's catch blocks are
  values of the result types; what \<^verbatim>\<open>Utils.printAsGitHubError\<close> prints is not modelled.
\<close>

subsection \<open>JavaScript string built-ins\<close>

text \<open>
  \<^verbatim>\<open>String.prototype.trim\<close>: white space and line terminators are removed at both
  ends. Characters are bytes here, so only the ASCII white space is covered.
\<close>

definition is_space :: "char \<Rightarrow> bool" where
  "is_space c = (c \<in> set [CHR '' '', CHR 0x09, CHR 0x0A, CHR 0x0B, CHR 0x0C, CHR 0x0D])"

definition trim :: "string \<Rightarrow> string" where
  "trim s = rev (dropWhile is_space (rev (dropWhile is_space s)))"

text \<open>\<^verbatim>\<open>String.prototype.startsWith\<close> and \<^verbatim>\<open>String.prototype.includes\<close>.\<close>

fun startsWith :: "string \<Rightarrow> string \<Rightarrow> bool" where
  "startsWith s [] = True"
| "startsWith [] (p # ps) = False"
| "startsWith (c # cs) (p # ps) = (c = p \<and> startsWith cs ps)"

fun includes_str :: "string \<Rightarrow> string \<Rightarrow> bool" where
  "includes_str [] sub = (sub = [])"
| "includes_str (c # cs) sub = (startsWith (c # cs) sub \<or> includes_str cs sub)"

definition is_digit :: "char \<Rightarrow> bool" where
  "is_digit c = (c \<in> set ''0123456789'')"

definition digit_val :: "char \<Rightarrow> int" where
  "digit_val c = int (of_char c) - 48"

text \<open>
  \<^verbatim>\<open>parseInt\<close> on a string that starts with a digit: the value of the leading run of
  decimal digits. (The parser only applies it to the digits of a regular-expression
  match.)
\<close>

definition parseInt :: "string \<Rightarrow> int" where
  "parseInt s = foldl (\<lambda>n c. 10 * n + digit_val c) 0 (takeWhile is_digit s)"

text \<open>
  \<^verbatim>\<open>pageUrl.match(/page=[0-9]+/gm)\<close>: with the global flag the result is the array of
  all matches, or \<^verbatim>\<open>null\<close>. Only \<^verbatim>\<open>matches[0]\<close> is read, the leftmost match with its
  greedy run of digits; \<open>None\<close> is \<^verbatim>\<open>null\<close>.
\<close>

fun pageNumRegex_first :: "string \<Rightarrow> string option" where
  "pageNumRegex_first [] = None"
| "pageNumRegex_first (c # cs) =
     (if startsWith (c # cs) ''page='' \<and> (case drop 5 (c # cs) of [] \<Rightarrow> False | d # _ \<Rightarrow> is_digit d)
      then Some (''page='' @ takeWhile is_digit (drop 5 (c # cs)))
      else pageNumRegex_first cs)"

subsection \<open>The helpers of \<^verbatim>\<open>Utils.ts\<close>\<close>

text \<open>
  Modelled from the spec: \<^verbatim>\<open>Utils.isNullOrEmptyOrUndefined\<close> is not among the sources.
  The spec's parser contract reads "if the input is empty (string case) [...] returns a
  null/empty result"; a value of type string is neither \<^verbatim>\<open>null\<close> nor \<^verbatim>\<open>undefined\<close>.
\<close>

definition isNullOrEmptyOrUndefined :: "string \<Rightarrow> bool" where
  "isNullOrEmptyOrUndefined s = (s = [])"

text \<open>
  Modelled from the spec: \<^verbatim>\<open>Utils.splitBy\<close> is not among the sources. The spec says
  "split each section on \<^verbatim>\<open>;\<close>": the parts between the occurrences of the separator, in
  order. Every call of the parser passes a one-character separator.
\<close>

fun splitBy :: "string \<Rightarrow> char \<Rightarrow> string list" where
  "splitBy [] sep = [[]]"
| "splitBy (c # cs) sep =
     (if c = sep then [] # splitBy cs sep
      else (case splitBy cs sep of [] \<Rightarrow> [[c]] | p # ps \<Rightarrow> (c # p) # ps))"

text \<open>
  Modelled from the spec: \<^verbatim>\<open>Utils.splitByComma\<close> is not among the sources. The spec
  says "split the header value on commas into sections".
\<close>

definition splitByComma :: "string \<Rightarrow> string list" where
  "splitByComma s = splitBy s CHR '',''"

text \<open>
  Modelled from the spec: \<^verbatim>\<open>Utils.clamp\<close> is not among the sources. The spec says the
  page size "is always clamped to \<^verbatim>\<open>[1,100]\<close>", with \<open>0\<close>, \<open>-5\<close> and \<open>500\<close> clamped to
  \<open>1\<close>, \<open>1\<close> and \<open>100\<close>.
\<close>

definition clamp :: "int \<Rightarrow> int \<Rightarrow> int \<Rightarrow> int" where
  "clamp v lo hi = (if v < lo then lo else if hi < v then hi else v)"

subsection \<open>Link header parser\<close>

record IPageInfo =
  pageUrl :: string
  metadata :: string

record ILinkHeader =
  prevPage :: int
  nextPage :: int
  totalPages :: int
  pageData :: "IPageInfo list"

text \<open>A \<^verbatim>\<open>Response\<close>, as far as the parser reads it: the header lookup by name.\<close>

record Response =
  headers :: "string \<rightharpoonup> string"

datatype response_or_string = HeaderString string | ResponseObject Response

text \<open>Calling \<^verbatim>\<open>.trim()\<close> on \<^verbatim>\<open>undefined\<close> throws.\<close>

datatype js_error = TypeError

definition isPrev :: "IPageInfo \<Rightarrow> bool" where
  "isPrev pageInfo = includes_str (metadata pageInfo) (''rel='' @ [CHR 0x22] @ ''prev'' @ [CHR 0x22])"

definition isNext :: "IPageInfo \<Rightarrow> bool" where
  "isNext pageInfo = includes_str (metadata pageInfo) (''rel='' @ [CHR 0x22] @ ''next'' @ [CHR 0x22])"

definition isLast :: "IPageInfo \<Rightarrow> bool" where
  "isLast pageInfo = includes_str (metadata pageInfo) (''rel='' @ [CHR 0x22] @ ''last'' @ [CHR 0x22])"

text \<open>
  \<^verbatim>\<open>matches === null ? 0 : parseInt(Utils.splitBy(matches[0], "=")[1])\<close>. A match is
  \<^verbatim>\<open>page=\<close> followed by digits, so index 1 of its split exists (lemma
  \<open>pageNumRegex_first_split\<close> below); \<^verbatim>\<open>parseInt(undefined)\<close> would be \<^verbatim>\<open>NaN\<close>, which
  every loop bound of the engine treats like \<open>0\<close>.
\<close>

definition getPageNumber :: "string \<Rightarrow> int" where
  "getPageNumber url =
     (case pageNumRegex_first (trim url) of
        None \<Rightarrow> 0
      | Some m \<Rightarrow> (case splitBy m CHR ''='' of _ # digits # _ \<Rightarrow> parseInt digits | _ \<Rightarrow> 0))"

text \<open>The body of the loop over the header sections, with the header built so far.\<close>

definition parseSection :: "ILinkHeader \<Rightarrow> string \<Rightarrow> js_error + ILinkHeader" where
  "parseSection linkHeaderInfo headerSection =
     (case map trim (splitBy headerSection CHR '';'') of
        [] \<Rightarrow> Inl TypeError
      | [_] \<Rightarrow> Inl TypeError
      | s0 # s1 # _ \<Rightarrow>
          (let pageInfo = \<lparr>pageUrl = trim s0, metadata = trim s1\<rparr>;
               info = linkHeaderInfo\<lparr>pageData := pageData linkHeaderInfo @ [pageInfo]\<rparr>
           in if isPrev pageInfo then Inr (info\<lparr>prevPage := getPageNumber (pageUrl pageInfo)\<rparr>)
              else if isNext pageInfo then Inr (info\<lparr>nextPage := getPageNumber (pageUrl pageInfo)\<rparr>)
              else if isLast pageInfo then Inr (info\<lparr>totalPages := getPageNumber (pageUrl pageInfo)\<rparr>)
              else Inr info))"

fun parseSections :: "ILinkHeader \<Rightarrow> string list \<Rightarrow> js_error + ILinkHeader" where
  "parseSections linkHeaderInfo [] = Inr linkHeaderInfo"
| "parseSections linkHeaderInfo (headerSection # rest) =
     (case parseSection linkHeaderInfo headerSection of
        Inl e \<Rightarrow> Inl e
      | Inr info \<Rightarrow> parseSections info rest)"

text \<open>\<open>Inr None\<close> is the \<^verbatim>\<open>null\<close> result, \<open>Inl\<close> an exception that leaves the function.\<close>

definition toLinkHeader :: "response_or_string \<Rightarrow> js_error + ILinkHeader option" where
  "toLinkHeader responseOrHeaderString =
     (let doesNotContainLinkHeader =
            (case responseOrHeaderString of
               HeaderString s \<Rightarrow> isNullOrEmptyOrUndefined s
             | ResponseObject r \<Rightarrow> headers r ''Link'' = None)
      in if doesNotContainLinkHeader then Inr None
         else
           (let linkHeader =
                  (case responseOrHeaderString of
                     HeaderString s \<Rightarrow> s
                   | ResponseObject r \<Rightarrow> (case headers r ''Link'' of Some v \<Rightarrow> v | None \<Rightarrow> []));
                headerSections = map trim (splitByComma linkHeader)
            in case parseSections
                      \<lparr>prevPage = 0, nextPage = 0, totalPages = 0, pageData = []\<rparr> headerSections of
                 Inl e \<Rightarrow> Inl e
               | Inr info \<Rightarrow> Inr (Some info)))"

subsection \<open>Page group partitioner\<close>

text \<open>
  The loop \<^verbatim>\<open>for (let i = 1; i <= totalPages; i++)\<close> of \<^verbatim>\<open>createAlternatePagesGroups\<close>,
  with the two arrays it pushes to.
\<close>

function groups_loop :: "int \<Rightarrow> int \<Rightarrow> int \<Rightarrow> int list \<Rightarrow> int list \<Rightarrow> int list \<times> int list" where
  "groups_loop totalPgs firstHalfEndingIndex i firstHalf secondHalf =
     (if i \<le> totalPgs then
        (if i \<le> firstHalfEndingIndex
         then groups_loop totalPgs firstHalfEndingIndex (i + 1) (firstHalf @ [i]) secondHalf
         else groups_loop totalPgs firstHalfEndingIndex (i + 1) firstHalf (secondHalf @ [i]))
      else (firstHalf, secondHalf))"
  by pat_completeness auto
termination
  by (relation "measure (\<lambda>(totalPgs, h, i, a, b). nat (totalPgs + 1 - i))") auto

definition createAlternatePagesGroups :: "int \<Rightarrow> int list \<times> int list" where
  "createAlternatePagesGroups totalPgs =
     (let firstHalfEndingIndex = totalPgs div 2;
          (firstHalf, secondHalf) = groups_loop totalPgs firstHalfEndingIndex 1 [] []
      in (firstHalf, rev secondHalf))"

subsection \<open>Page fetches and their joins\<close>

text \<open>
  The page-fetch callback \<^verbatim>\<open>GetDataFunc<T>\<close>: page number and page size to the settled
  value of the promise it returns, \<open>Inl\<close> when the promise rejects. The reason of a
  rejection is an error object with a message, which the catch blocks read.
\<close>

datatype fetch_error = FetchError string

type_synonym 'a getDataFunc = "int \<Rightarrow> int \<Rightarrow> fetch_error + ('a list \<times> Response)"

text \<open>One invocation of the callback: the page and the page size it was given.\<close>

type_synonym call = "int \<times> int"

text \<open>
  \<^verbatim>\<open>Promise.all\<close>. The promises settle in some completion order (a list of indices into
  the array of promises). A fulfilled promise stores its value in the result array at its
  own index; the first rejection rejects the whole join with its reason; once every
  promise is fulfilled the array is the result.
\<close>

fun settle :: "nat list \<Rightarrow> ('e + 'v) list \<Rightarrow> 'v option list \<Rightarrow> 'e + 'v option list" where
  "settle [] promises slots = Inr slots"
| "settle (k # ks) promises slots =
     (case promises ! k of
        Inl e \<Rightarrow> Inl e
      | Inr v \<Rightarrow> settle ks promises (slots[k := Some v]))"

definition promise_all :: "nat list \<Rightarrow> ('e + 'v) list \<Rightarrow> 'e + 'v list" where
  "promise_all order promises =
     (case settle order promises (replicate (length promises) None) of
        Inl e \<Rightarrow> Inl e
      | Inr slots \<Rightarrow> Inr (map the slots))"

text \<open>
  A schedule gives, for the \<open>k\<close>-th join of an operation and the number \<open>n\<close> of promises
  joined, the order in which the \<open>n\<close> promises settle. Every promise settles exactly once.
\<close>

type_synonym schedule = "nat \<Rightarrow> nat \<Rightarrow> nat list"

definition fair :: "schedule \<Rightarrow> bool" where
  "fair sched = (\<forall>k n. mset (sched k n) = mset [0..<n])"

subsection \<open>Pagination engine\<close>

text \<open>The catch blocks of the engine end the process with \<^verbatim>\<open>Deno.exit(1)\<close>.\<close>

datatype failure = ProcessExit int

text \<open>
  Every operation returns its outcome together with the invocations of the callback it
  made, in the order it made them.
\<close>

type_synonym 'a outcome = "(failure + 'a list) \<times> call list"

definition getAllData :: "schedule \<Rightarrow> 'a getDataFunc \<Rightarrow> int \<Rightarrow> int \<Rightarrow> 'a outcome" where
  "getAllData sched getData page0 qtyPerPage0 =
     (let page = (if page0 < 1 then 1 else page0);
          qtyPerPage = clamp qtyPerPage0 1 100
      in case getData page qtyPerPage of
           Inl error \<Rightarrow> (Inl (ProcessExit 1), [(page, qtyPerPage)])
         | Inr (dataItems, response) \<Rightarrow>
             (case toLinkHeader (ResponseObject response) of
                Inl error \<Rightarrow> (Inl (ProcessExit 1), [(page, qtyPerPage)])
              | Inr linkHeader \<Rightarrow>
                  (let totalPagesLeft = (case linkHeader of None \<Rightarrow> 1 | Some h \<Rightarrow> totalPages h);
                       dataRequests = map (\<lambda>i. getData i qtyPerPage) [2..totalPagesLeft];
                       calls = (page, qtyPerPage) # map (\<lambda>i. (i, qtyPerPage)) [2..totalPagesLeft]
                   in case promise_all (sched 0 (length dataRequests)) dataRequests of
                        Inl error \<Rightarrow> (Inl (ProcessExit 1), calls)
                      | Inr responses \<Rightarrow>
                          (Inr (foldl (\<lambda>allData r. allData @ fst r) dataItems responses), calls))))"

text \<open>
  The pages requested in round \<open>i\<close> of \<^verbatim>\<open>getAllDataUntil\<close>: \<^verbatim>\<open>groupA[i]\<close> if
  \<^verbatim>\<open>i <= groupA.length - 1\<close>, then \<^verbatim>\<open>groupB[i]\<close> if \<^verbatim>\<open>i <= groupB.length - 1\<close>.
\<close>

definition round_pages :: "int list \<Rightarrow> int list \<Rightarrow> nat \<Rightarrow> int list" where
  "round_pages groupA groupB i =
     (if int i \<le> int (length groupA) - 1 then [groupA ! i] else []) @
     (if int i \<le> int (length groupB) - 1 then [groupB ! i] else [])"

text \<open>
  The loop \<^verbatim>\<open>for (let i = 0; i < maxLen; i++)\<close> of \<^verbatim>\<open>getAllDataUntil\<close>. The array
  \<^verbatim>\<open>requests\<close> is empty at the start of every round. The destructuring
  \<^verbatim>\<open>[groupResultA, groupResultB]\<close> reads the first and the second result of the join,
  \<^verbatim>\<open>undefined\<close> where the join has fewer results.
\<close>

function until_loop ::
  "schedule \<Rightarrow> 'a getDataFunc \<Rightarrow> int \<Rightarrow> ('a list \<Rightarrow> bool) \<Rightarrow> int list \<Rightarrow> int list \<Rightarrow> nat \<Rightarrow> nat \<Rightarrow>
   call list \<Rightarrow> 'a outcome" where
  "until_loop sched getData qtyPerPage until groupA groupB maxLen i calls =
     (if i < maxLen then
        (let pages = round_pages groupA groupB i;
             requests = map (\<lambda>p. getData p qtyPerPage) pages;
             calls' = calls @ map (\<lambda>p. (p, qtyPerPage)) pages
         in case promise_all (sched i (length requests)) requests of
              Inl error \<Rightarrow> (Inl (ProcessExit 1), calls')
            | Inr results \<Rightarrow>
                (let groupItemsA = (case results of [] \<Rightarrow> [] | groupResultA # _ \<Rightarrow> fst groupResultA)
                 in if length groupItemsA > 0 \<and> until groupItemsA then (Inr groupItemsA, calls')
                    else
                      (let groupItemsB =
                             (case results of _ # groupResultB # _ \<Rightarrow> fst groupResultB | _ \<Rightarrow> [])
                       in if length groupItemsB > 0 \<and> until groupItemsB then (Inr groupItemsB, calls')
                          else until_loop sched getData qtyPerPage until groupA groupB maxLen
                                 (i + 1) calls')))
      else (Inr [], calls))"
  by pat_completeness auto
termination
  by (relation "measure (\<lambda>(sched, getData, qtyPerPage, until, groupA, groupB, maxLen, i, calls). maxLen - i)")
     auto

definition getAllDataUntil ::
  "schedule \<Rightarrow> 'a getDataFunc \<Rightarrow> int \<Rightarrow> int \<Rightarrow> ('a list \<Rightarrow> bool) \<Rightarrow> 'a outcome" where
  "getAllDataUntil sched getData page0 qtyPerPage0 until =
     (let page = (if page0 < 1 then 1 else page0);
          qtyPerPage = clamp qtyPerPage0 1 100
      in case getData page qtyPerPage of
           Inl error \<Rightarrow> (Inl (ProcessExit 1), [(page, qtyPerPage)])
         | Inr (dataItems, response) \<Rightarrow>
             if until dataItems then (Inr dataItems, [(page, qtyPerPage)])
             else
               (case toLinkHeader (ResponseObject response) of
                  Inl error \<Rightarrow> (Inl (ProcessExit 1), [(page, qtyPerPage)])
                | Inr linkHeader \<Rightarrow>
                    (let totalPagesLeft = (case linkHeader of None \<Rightarrow> 0 | Some h \<Rightarrow> totalPages h);
                         (groupA0, groupB0) = createAlternatePagesGroups totalPagesLeft;
                         groupA = filter (\<lambda>i. i \<noteq> 1) groupA0;
                         groupB = filter (\<lambda>i. i \<noteq> 1) groupB0;
                         maxLen = max (length groupA) (length groupB)
                     in until_loop sched getData qtyPerPage until groupA groupB maxLen 0
                          [(page, qtyPerPage)])))"

definition getAllFilteredData ::
  "schedule \<Rightarrow> 'a getDataFunc \<Rightarrow> int \<Rightarrow> int \<Rightarrow> ('a list \<Rightarrow> 'a list) \<Rightarrow> 'a outcome" where
  "getAllFilteredData sched getData page0 qtyPerPage0 filter_fn =
     (let page = (if page0 < 1 then 1 else page0);
          qtyPerPage = clamp qtyPerPage0 1 100
      in case getAllData sched getData page qtyPerPage of
           (Inl exit, calls) \<Rightarrow> (Inl exit, calls)
         | (Inr allData, calls) \<Rightarrow> (Inr (filter_fn allData), calls))"

subsection \<open>Notions used to state the properties\<close>

text \<open>The items of page \<open>p\<close> as the callback delivers them (no items when the fetch fails).\<close>

definition page_items :: "'a getDataFunc \<Rightarrow> int \<Rightarrow> int \<Rightarrow> 'a list" where
  "page_items getData qtyPerPage p = (case getData p qtyPerPage of Inl _ \<Rightarrow> [] | Inr (items, _) \<Rightarrow> items)"

text \<open>An invocation of the callback whose promise rejects.\<close>

definition rejected :: "'a getDataFunc \<Rightarrow> call \<Rightarrow> bool" where
  "rejected getData c = isl (getData (fst c) (snd c))"

text \<open>
  The two groups as \<^verbatim>\<open>getAllDataUntil\<close> walks them, page 1 removed, and the number of
  rounds it makes for a given \<^verbatim>\<open>totalPages\<close> (the value of \<^verbatim>\<open>maxLen\<close>).
\<close>

definition engine_groups :: "int \<Rightarrow> int list \<times> int list" where
  "engine_groups totalPgs =
     (let (groupA0, groupB0) = createAlternatePagesGroups totalPgs
      in (filter (\<lambda>i. i \<noteq> 1) groupA0, filter (\<lambda>i. i \<noteq> 1) groupB0))"

text \<open>
  Round \<open>k\<close> of the search has a hit: one of the pages it requests comes back non-empty
  and satisfies the predicate.
\<close>

definition round_hit ::
  "'a getDataFunc \<Rightarrow> int \<Rightarrow> ('a list \<Rightarrow> bool) \<Rightarrow> int list \<Rightarrow> int list \<Rightarrow> nat \<Rightarrow> bool" where
  "round_hit getData qtyPerPage until groupA groupB k =
     (\<exists>p\<in>set (round_pages groupA groupB k).
        page_items getData qtyPerPage p \<noteq> [] \<and> until (page_items getData qtyPerPage p))"

definition num_rounds :: "int \<Rightarrow> nat" where
  "num_rounds totalPgs = max (length (fst (engine_groups totalPgs))) (length (snd (engine_groups totalPgs)))"

subsection \<open>Concrete inputs\<close>

definition example_header :: string where
  "example_header =
     ''<https://api.example.com/x?page=2>; rel='' @ [CHR 0x22] @ ''next'' @ [CHR 0x22] @
     '', <https://api.example.com/x?page=5>; rel='' @ [CHR 0x22] @ ''last'' @ [CHR 0x22]"

definition example_parsed :: ILinkHeader where
  "example_parsed =
     \<lparr>prevPage = 0, nextPage = 2, totalPages = 5,
      pageData =
        [\<lparr>pageUrl = ''<https://api.example.com/x?page=2>'',
          metadata = ''rel='' @ [CHR 0x22] @ ''next'' @ [CHR 0x22]\<rparr>,
         \<lparr>pageUrl = ''<https://api.example.com/x?page=5>'',
          metadata = ''rel='' @ [CHR 0x22] @ ''last'' @ [CHR 0x22]\<rparr>]\<rparr>"

text \<open>A header with one section that has a URL and no metadata half.\<close>

definition url_only_header :: string where
  "url_only_header = ''<https://api.example.com/x?page=2>''"

text \<open>A header whose \<^verbatim>\<open>last\<close> section has no \<^verbatim>\<open>page=\<close> token in its URL.\<close>

definition no_page_header :: string where
  "no_page_header = ''<https://api.example.com/x>; rel='' @ [CHR 0x22] @ ''last'' @ [CHR 0x22]"

text \<open>A response without a Link header.\<close>

definition plain_response :: Response where
  "plain_response = \<lparr>headers = [''Content-Type'' \<mapsto> ''application/json'']\<rparr>"

text \<open>A response whose Link header names the last page.\<close>

definition response_with_last :: "string \<Rightarrow> Response" where
  "response_with_last digits =
     \<lparr>headers = [''Link'' \<mapsto>
        ''<https://api.example.com/x?page='' @ digits @ ''>; rel='' @ [CHR 0x22] @ ''last'' @ [CHR 0x22]]\<rparr>"

definition parsed_last :: "string \<Rightarrow> int \<Rightarrow> ILinkHeader" where
  "parsed_last digits n =
     \<lparr>prevPage = 0, nextPage = 0, totalPages = n,
      pageData =
        [\<lparr>pageUrl = ''<https://api.example.com/x?page='' @ digits @ ''>'',
          metadata = ''rel='' @ [CHR 0x22] @ ''last'' @ [CHR 0x22]\<rparr>]\<rparr>"

text \<open>A callback over a table of pages; a page missing from the table fails to load.\<close>

definition paged :: "string \<Rightarrow> (int \<Rightarrow> int list option) \<Rightarrow> int getDataFunc" where
  "paged digits table p q =
     (case table p of
        None \<Rightarrow> Inl (FetchError ''request failed'')
      | Some items \<Rightarrow> Inr (items, response_with_last digits))"

definition five_pages :: "int getDataFunc" where
  "five_pages = paged ''5'' (\<lambda>p. if 1 \<le> p \<and> p \<le> 5 then Some [p] else None)"

definition five_pages_broken :: "int getDataFunc" where
  "five_pages_broken = paged ''5'' (\<lambda>p. if 1 \<le> p \<and> p \<le> 5 \<and> p \<noteq> 3 then Some [p] else None)"

text \<open>A callback every fetch of which fails.\<close>

definition no_pages :: "int getDataFunc" where
  "no_pages = paged ''5'' (\<lambda>p. None)"

text \<open>
  Five pages behind a callback that refuses a page below 1 and a page size outside
  \<open>[1,100]\<close>.
\<close>

definition strict_five_pages :: "int getDataFunc" where
  "strict_five_pages p q =
     (if 1 \<le> p \<and> 1 \<le> q \<and> q \<le> 100 then five_pages p q
      else Inl (FetchError ''bad request''))"

definition four_pages :: "int getDataFunc" where
  "four_pages =
     paged ''4'' (\<lambda>p. if p = 1 then Some [1, 1] else if p = 2 then Some []
                     else if p = 3 then Some [3, 3] else if p = 4 then Some [7] else None)"

text \<open>Predicates on a page of items.\<close>

definition at_most_one :: "int list \<Rightarrow> bool" where
  "at_most_one xs = (length xs \<le> 1)"

definition never :: "int list \<Rightarrow> bool" where
  "never xs = False"

definition has_one :: "int list \<Rightarrow> bool" where
  "has_one xs = (1 \<in> set xs)"

text \<open>The schedule in which the promise requested last settles first.\<close>

definition reverse_completion :: schedule where
  "reverse_completion k n = rev [0..<n]"

section \<open>Properties\<close>

declare groups_loop.simps [simp del]
declare until_loop.simps [simp del]

subsection \<open>The partitioner in closed form\<close>

lemma groups_loop_closed:
  "groups_loop n h i fh sh = (fh @ [i..min h n], sh @ [max i (h + 1)..n])"
proof (induction n h i fh sh rule: groups_loop.induct)
  case (1 n h i fh sh)
  show ?case
  proof (cases "i \<le> n")
    case False
    then show ?thesis by (simp add: groups_loop.simps)
  next
    case True
    show ?thesis
    proof (cases "i \<le> h")
      case True
      with \<open>i \<le> n\<close> have "[i..min h n] = i # [i + 1..min h n]"
        by (simp add: upto_rec1)
      moreover from True have "max (i + 1) (h + 1) = max i (h + 1)" by simp
      ultimately show ?thesis
        using 1(1) [OF \<open>i \<le> n\<close> True] \<open>i \<le> n\<close> True
        by (simp add: groups_loop.simps [of n h i])
    next
      case False
      then have "max i (h + 1) = i" "max (i + 1) (h + 1) = i + 1" by simp_all
      moreover from \<open>i \<le> n\<close> have "[i..n] = i # [i + 1..n]"
        by (simp add: upto_rec1)
      moreover from False have "[i..min h n] = []" "[i + 1..min h n] = []" by simp_all
      ultimately show ?thesis
        using 1(2) [OF \<open>i \<le> n\<close> False] \<open>i \<le> n\<close> False
        by (simp add: groups_loop.simps [of n h i])
    qed
  qed
qed

lemma createAlternatePagesGroups_closed:
  "createAlternatePagesGroups n = ([1..n div 2], rev [n div 2 + 1..n])"
proof -
  have a: "[1..min (n div 2) n] = [1..n div 2]"
    by (cases "0 \<le> n") (simp_all add: min_def)
  have b: "[max 1 (n div 2 + 1)..n] = [n div 2 + 1..n]"
    by (cases "0 \<le> n") (simp_all add: max_def)
  show ?thesis
    by (simp add: createAlternatePagesGroups_def Let_def groups_loop_closed a b)
qed

subsection \<open>A join does not depend on the completion order\<close>

lemma settle_fold:
  "\<forall>k\<in>set order. \<not> isl (ps ! k) \<Longrightarrow>
   settle order ps slots = Inr (fold (\<lambda>k s. s[k := Some (projr (ps ! k))]) order slots)"
  by (induction order arbitrary: slots) (auto split: sum.splits)

lemma settle_reject:
  "\<exists>k\<in>set order. isl (ps ! k) \<Longrightarrow> isl (settle order ps slots)"
  by (induction order arbitrary: slots) (auto split: sum.splits)

lemma fold_store_length:
  "length (fold (\<lambda>k s. s[k := f k]) order slots) = length slots"
  by (induction order arbitrary: slots) auto

lemma fold_store_nth:
  "j < length slots \<Longrightarrow>
   fold (\<lambda>k s. s[k := f k]) order slots ! j = (if j \<in> set order then f j else slots ! j)"
  by (induction order arbitrary: slots) (auto simp: nth_list_update)

lemma promise_all_fulfilled:
  assumes "mset order = mset [0..<length ps]" and "\<forall>p\<in>set ps. \<not> isl p"
  shows "promise_all order ps = Inr (map projr ps)"
proof -
  from assms(1) have so: "set order = {0..<length ps}"
    by (metis mset_eq_setD set_upt)
  with assms(2) have "\<forall>k\<in>set order. \<not> isl (ps ! k)" by simp
  then have s: "settle order ps (replicate (length ps) None) =
      Inr (fold (\<lambda>k s. s[k := Some (projr (ps ! k))]) order (replicate (length ps) None))"
    by (rule settle_fold)
  have "map the (fold (\<lambda>k s. s[k := Some (projr (ps ! k))]) order (replicate (length ps) None)) =
      map projr ps"
    by (rule nth_equalityI) (simp_all add: fold_store_length fold_store_nth so)
  with s show ?thesis by (simp add: promise_all_def)
qed

lemma promise_all_rejected:
  assumes "mset order = mset [0..<length ps]" and "\<exists>p\<in>set ps. isl p"
  shows "isl (promise_all order ps)"
proof -
  from assms(1) have so: "set order = {0..<length ps}"
    by (metis mset_eq_setD set_upt)
  from assms(2) obtain k where "k < length ps" "isl (ps ! k)"
    by (auto simp: in_set_conv_nth)
  with so have "\<exists>k\<in>set order. isl (ps ! k)" by auto
  then have "isl (settle order ps (replicate (length ps) None))" by (rule settle_reject)
  then show ?thesis by (auto simp: promise_all_def split: sum.splits)
qed

lemma fair_reverse_completion: "fair reverse_completion"
  by (simp add: fair_def reverse_completion_def)

lemma fair_join_ok:
  "fair sched \<Longrightarrow> \<forall>p\<in>set ps. \<not> isl p \<Longrightarrow> promise_all (sched k (length ps)) ps = Inr (map projr ps)"
  by (simp add: fair_def promise_all_fulfilled)

lemma fair_join_fail:
  "fair sched \<Longrightarrow> \<exists>p\<in>set ps. isl p \<Longrightarrow> \<exists>e. promise_all (sched k (length ps)) ps = Inl e"
  using promise_all_rejected [of "sched k (length ps)" ps]
  by (cases "promise_all (sched k (length ps)) ps") (auto simp: fair_def)

subsection \<open>Fetch-all\<close>

lemma page_items_projr:
  "\<not> isl (getData p q) \<Longrightarrow> fst (projr (getData p q)) = page_items getData q p"
  by (auto simp: page_items_def split: sum.splits)

lemma push_all: "foldl (\<lambda>allData r. allData @ fst r) acc rs = acc @ concat (map fst rs)"
  by (induction rs arbitrary: acc) auto

lemma getAllData_pages:
  assumes f: "fair sched"
    and seed: "getData (if p < 1 then 1 else p) (clamp q 1 100) = Inr (items, resp)"
    and hdr: "toLinkHeader (ResponseObject resp) = Inr lh"
    and n: "(case lh of None \<Rightarrow> 1 | Some h \<Rightarrow> totalPages h) = n"
    and ok: "\<forall>i\<in>{2..n}. \<not> isl (getData i (clamp q 1 100))"
  shows "getAllData sched getData p q =
     (Inr (items @ concat (map (page_items getData (clamp q 1 100)) [2..n])),
      (if p < 1 then 1 else p, clamp q 1 100) # map (\<lambda>i. (i, clamp q 1 100)) [2..n])"
proof -
  let ?q = "clamp q 1 100"
  let ?reqs = "map (\<lambda>i. getData i ?q) [2..n]"
  from ok have "\<forall>r\<in>set ?reqs. \<not> isl r" by auto
  with f have j: "promise_all (sched 0 (length ?reqs)) ?reqs = Inr (map projr ?reqs)"
    by (rule fair_join_ok)
  have m: "map (fst \<circ> (projr \<circ> (\<lambda>i. getData i ?q))) [2..n] = map (page_items getData ?q) [2..n]"
    using ok by (auto simp: page_items_def split: sum.splits)
  show ?thesis
    unfolding getAllData_def Let_def
    using seed hdr n j by (simp add: push_all m)
qed

subsection \<open>One round of the predicate search\<close>

lemma until_loop_exit:
  "\<not> i < maxLen \<Longrightarrow> until_loop sched getData q until A B maxLen i calls = (Inr [], calls)"
  by (simp add: until_loop.simps)

lemma until_loop_round:
  assumes f: "fair sched" and i: "i < maxLen"
    and ok: "\<forall>p\<in>set (round_pages A B i). \<not> isl (getData p q)"
  shows "until_loop sched getData q until A B maxLen i calls =
     (let a = (if i < length A then page_items getData q (A ! i) else []);
          b = (if i < length B then page_items getData q (B ! i) else []);
          calls' = calls @ map (\<lambda>p. (p, q)) (round_pages A B i)
      in if a \<noteq> [] \<and> until a then (Inr a, calls')
         else if b \<noteq> [] \<and> until b then (Inr b, calls')
         else until_loop sched getData q until A B maxLen (i + 1) calls')"
proof -
  let ?reqs = "map (\<lambda>p. getData p q) (round_pages A B i)"
  from ok have "\<forall>r\<in>set ?reqs. \<not> isl r" by auto
  with f have j: "promise_all (sched i (length ?reqs)) ?reqs = Inr (map projr ?reqs)"
    by (rule fair_join_ok)
  show ?thesis
  proof (cases "i < length A")
    case True
    note a = this
    show ?thesis
    proof (cases "i < length B")
      case True
      with a ok have "\<not> isl (getData (A ! i) q)" "\<not> isl (getData (B ! i) q)"
        by (simp_all add: round_pages_def)
      then show ?thesis
        using i j a True
        by (subst until_loop.simps) (simp add: round_pages_def Let_def page_items_projr)
    next
      case False
      with a ok have "\<not> isl (getData (A ! i) q)"
        by (simp_all add: round_pages_def)
      then show ?thesis
        using i j a False
        by (subst until_loop.simps) (simp add: round_pages_def Let_def page_items_projr)
    qed
  next
    case False
    note a = this
    show ?thesis
    proof (cases "i < length B")
      case True
      with a ok have "\<not> isl (getData (B ! i) q)"
        by (simp_all add: round_pages_def)
      then show ?thesis
        using i j a True
        by (subst until_loop.simps) (simp add: round_pages_def Let_def page_items_projr)
    next
      case False
      then show ?thesis
        using i j a
        by (subst until_loop.simps) (simp add: round_pages_def Let_def)
    qed
  qed
qed

lemma until_loop_round_rejected:
  assumes f: "fair sched" and i: "i < maxLen"
    and bad: "\<exists>p\<in>set (round_pages A B i). isl (getData p q)"
  shows "until_loop sched getData q until A B maxLen i calls =
     (Inl (ProcessExit 1), calls @ map (\<lambda>p. (p, q)) (round_pages A B i))"
proof -
  let ?reqs = "map (\<lambda>p. getData p q) (round_pages A B i)"
  from bad have "\<exists>r\<in>set ?reqs. isl r" by auto
  with f obtain e where "promise_all (sched i (length ?reqs)) ?reqs = Inl e"
    using fair_join_fail by blast
  then show ?thesis
    using i by (subst until_loop.simps) (simp add: Let_def)
qed

subsection \<open>The invocations of a predicate search\<close>

lemma until_loop_step_calls:
  assumes "i < maxLen"
  shows "snd (until_loop sched getData q until A B maxLen i calls) =
           calls @ map (\<lambda>p. (p, q)) (round_pages A B i) \<or>
         until_loop sched getData q until A B maxLen i calls =
           until_loop sched getData q until A B maxLen (i + 1)
             (calls @ map (\<lambda>p. (p, q)) (round_pages A B i))"
  using assms by (subst until_loop.simps, subst (2) until_loop.simps)
    (auto simp: Let_def split: sum.splits)

lemma until_loop_calls_shape:
  "\<exists>new. snd (until_loop sched getData q until A B maxLen i calls) = calls @ new \<and>
         (\<forall>c\<in>set new. snd c = q)"
proof (induction "maxLen - i" arbitrary: i calls)
  case 0
  then have "\<not> i < maxLen" by simp
  then show ?case by (simp add: until_loop_exit)
next
  case (Suc d)
  then have i: "i < maxLen" by simp
  let ?mine = "map (\<lambda>p. (p, q)) (round_pages A B i)"
  from Suc(2) have "d = maxLen - (i + 1)" by simp
  from Suc(1) [OF this, of "calls @ ?mine"]
  obtain new where new:
    "snd (until_loop sched getData q until A B maxLen (i + 1) (calls @ ?mine)) = (calls @ ?mine) @ new"
    "\<forall>c\<in>set new. snd c = q"
    by blast
  from until_loop_step_calls [OF i, of sched getData q until A B calls]
  show ?case
  proof
    assume "snd (until_loop sched getData q until A B maxLen i calls) = calls @ ?mine"
    then show ?thesis by (intro exI [of _ ?mine]) auto
  next
    assume "until_loop sched getData q until A B maxLen i calls =
        until_loop sched getData q until A B maxLen (i + 1) (calls @ ?mine)"
    with new show ?thesis by (intro exI [of _ "?mine @ new"]) auto
  qed
qed

lemma until_loop_calls:
  assumes f: "fair sched"
  shows "\<exists>new. snd (until_loop sched getData q until A B maxLen i calls) = calls @ new \<and>
           ((\<exists>c\<in>set new. rejected getData c) \<longrightarrow>
              fst (until_loop sched getData q until A B maxLen i calls) = Inl (ProcessExit 1))"
proof (induction "maxLen - i" arbitrary: i calls)
  case 0
  then have "\<not> i < maxLen" by simp
  then show ?case by (simp add: until_loop_exit)
next
  case (Suc d)
  then have i: "i < maxLen" by simp
  let ?pages = "round_pages A B i"
  let ?mine = "map (\<lambda>p. (p, q)) ?pages"
  show ?case
  proof (cases "\<exists>p\<in>set ?pages. isl (getData p q)")
    case True
    then show ?thesis
      by (simp add: until_loop_round_rejected [where getData = getData and q = q, OF f i])
  next
    case False
    then have ok: "\<forall>p\<in>set ?pages. \<not> isl (getData p q)" by simp
    then have clean: "\<forall>c\<in>set ?mine. \<not> rejected getData c"
      by (auto simp: rejected_def)
    from Suc(2) have "d = maxLen - (i + 1)" by simp
    from Suc(1) [OF this, of "calls @ ?mine"]
    obtain new where new:
      "snd (until_loop sched getData q until A B maxLen (i + 1) (calls @ ?mine)) = (calls @ ?mine) @ new"
      "(\<exists>c\<in>set new. rejected getData c) \<longrightarrow>
         fst (until_loop sched getData q until A B maxLen (i + 1) (calls @ ?mine)) = Inl (ProcessExit 1)"
      by blast
    define a where "a = (if i < length A then page_items getData q (A ! i) else [])"
    define b where "b = (if i < length B then page_items getData q (B ! i) else [])"
    have step: "until_loop sched getData q until A B maxLen i calls =
        (if a \<noteq> [] \<and> until a then (Inr a, calls @ ?mine)
         else if b \<noteq> [] \<and> until b then (Inr b, calls @ ?mine)
         else until_loop sched getData q until A B maxLen (i + 1) (calls @ ?mine))"
      unfolding a_def b_def
      using until_loop_round [where getData = getData and q = q, OF f i ok]
      by (simp add: Let_def)
    consider (hit) "(a \<noteq> [] \<and> until a) \<or> (b \<noteq> [] \<and> until b)"
      | (miss) "\<not> (a \<noteq> [] \<and> until a)" "\<not> (b \<noteq> [] \<and> until b)" by blast
    then show ?thesis
    proof cases
      case hit
      then have "snd (until_loop sched getData q until A B maxLen i calls) = calls @ ?mine"
        by (auto simp: step)
      with clean show ?thesis
        by (intro exI [of _ ?mine]) auto
    next
      case miss
      then have "until_loop sched getData q until A B maxLen i calls =
          until_loop sched getData q until A B maxLen (i + 1) (calls @ ?mine)"
        by (auto simp: step)
      with new clean show ?thesis
        by (intro exI [of _ "?mine @ new"]) auto
    qed
  qed
qed

subsection \<open>Evaluated facts about the concrete inputs\<close>

lemma toLinkHeader_last5:
  "toLinkHeader (ResponseObject (response_with_last ''5'')) = Inr (Some (parsed_last ''5'' 5))"
  by code_simp

lemma toLinkHeader_last4:
  "toLinkHeader (ResponseObject (response_with_last ''4'')) = Inr (Some (parsed_last ''4'' 4))"
  by code_simp

lemma engine_groups_5: "engine_groups 5 = ([2], [5, 4, 3])"
  by code_simp

lemma engine_groups_4: "engine_groups 4 = ([2], [4, 3])"
  by code_simp

lemma five_pages_ok: "1 \<le> p \<Longrightarrow> p \<le> 5 \<Longrightarrow> five_pages p q = Inr ([p], response_with_last ''5'')"
  by (simp add: five_pages_def paged_def)

lemma five_pages_items: "1 \<le> p \<Longrightarrow> p \<le> 5 \<Longrightarrow> page_items five_pages q p = [p]"
  by (simp add: page_items_def five_pages_ok)

lemma getAllDataUntil_loop:
  assumes "getData (if p < 1 then 1 else p) (clamp q 1 100) = Inr (items, resp)"
    and "\<not> until items"
    and "toLinkHeader (ResponseObject resp) = Inr lh"
    and "(case lh of None \<Rightarrow> 0 | Some h \<Rightarrow> totalPages h) = n"
  shows "getAllDataUntil sched getData p q until =
     until_loop sched getData (clamp q 1 100) until (fst (engine_groups n)) (snd (engine_groups n))
       (num_rounds n) 0 [(if p < 1 then 1 else p, clamp q 1 100)]"
  unfolding getAllDataUntil_def num_rounds_def engine_groups_def Let_def
  using assms by (simp add: case_prod_beta)

subsection \<open>What every invocation is given\<close>

lemma clamp_idem: "clamp (clamp q 1 100) 1 100 = clamp q 1 100"
  by (simp add: clamp_def)

lemma getAllData_calls:
  "snd (getAllData sched getData p q) \<noteq> [] \<and>
   hd (snd (getAllData sched getData p q)) = (if p < 1 then 1 else p, clamp q 1 100) \<and>
   (\<forall>c\<in>set (snd (getAllData sched getData p q)). snd c = clamp q 1 100)"
  by (auto simp: getAllData_def Let_def split: sum.splits prod.splits)

lemma getAllDataUntil_calls:
  "snd (getAllDataUntil sched getData p q until) \<noteq> [] \<and>
   hd (snd (getAllDataUntil sched getData p q until)) = (if p < 1 then 1 else p, clamp q 1 100) \<and>
   (\<forall>c\<in>set (snd (getAllDataUntil sched getData p q until)). snd c = clamp q 1 100)"
proof -
  let ?seed = "(if p < 1 then 1 else p, clamp q 1 100)"
  have "\<exists>new. snd (getAllDataUntil sched getData p q until) = ?seed # new \<and>
      (\<forall>c\<in>set new. snd c = clamp q 1 100)"
  proof (cases "getData (if p < 1 then 1 else p) (clamp q 1 100)")
    case (Inl e)
    then show ?thesis by (simp add: getAllDataUntil_def Let_def)
  next
    case (Inr r)
    obtain items resp where r: "r = (items, resp)" by (cases r)
    show ?thesis
    proof (cases "until items")
      case True
      with Inr r show ?thesis by (simp add: getAllDataUntil_def Let_def)
    next
      case False
      show ?thesis
      proof (cases "toLinkHeader (ResponseObject resp)")
        case (Inl e)
        with Inr r False show ?thesis by (simp add: getAllDataUntil_def Let_def)
      next
        case (Inr lh)
        from getAllDataUntil_loop
            [where getData = getData and p = p and q = q and until = until,
             OF \<open>getData _ _ = Inr r\<close> [unfolded r] False Inr refl]
        have "getAllDataUntil sched getData p q until =
            until_loop sched getData (clamp q 1 100) until
              (fst (engine_groups (case lh of None \<Rightarrow> 0 | Some h \<Rightarrow> totalPages h)))
              (snd (engine_groups (case lh of None \<Rightarrow> 0 | Some h \<Rightarrow> totalPages h)))
              (num_rounds (case lh of None \<Rightarrow> 0 | Some h \<Rightarrow> totalPages h)) 0 [?seed]" .
        with until_loop_calls_shape
            [of sched getData "clamp q 1 100" until
               "fst (engine_groups (case lh of None \<Rightarrow> 0 | Some h \<Rightarrow> totalPages h))"
               "snd (engine_groups (case lh of None \<Rightarrow> 0 | Some h \<Rightarrow> totalPages h))"
               "num_rounds (case lh of None \<Rightarrow> 0 | Some h \<Rightarrow> totalPages h)" 0 "[?seed]"]
        show ?thesis by auto
      qed
    qed
  qed
  then show ?thesis by auto
qed

lemma getAllFilteredData_calls:
  "snd (getAllFilteredData sched getData p q filter_fn) = snd (getAllData sched getData p q)"
proof -
  have "getAllData sched getData (if p < 1 then 1 else p) (clamp q 1 100) = getAllData sched getData p q"
    unfolding getAllData_def clamp_idem by simp
  then show ?thesis
    by (simp add: getAllFilteredData_def Let_def split: prod.splits sum.splits)
qed

subsection \<open>When the parser raises, and what a match splits into\<close>

lemma splitBy_no_sep: "sep \<notin> set s \<Longrightarrow> splitBy s sep = [s]"
  by (induction s) auto

lemma digit_not_equals: "is_digit d \<Longrightarrow> d \<noteq> CHR ''=''"
  by (auto simp: is_digit_def)

lemma pageNumRegex_first_shape:
  "pageNumRegex_first s = Some m \<Longrightarrow>
   \<exists>ds. m = ''page='' @ ds \<and> ds \<noteq> [] \<and> (\<forall>d\<in>set ds. is_digit d)"
proof (induction s)
  case Nil
  then show ?case by simp
next
  case (Cons c cs)
  show ?case
  proof (cases "startsWith (c # cs) ''page='' \<and>
      (case drop 5 (c # cs) of [] \<Rightarrow> False | d # _ \<Rightarrow> is_digit d)")
    case True
    with Cons.prems have m: "m = ''page='' @ takeWhile is_digit (drop 5 (c # cs))" by simp
    from True have "takeWhile is_digit (drop 5 (c # cs)) \<noteq> []"
      by (cases "drop 5 (c # cs)") auto
    moreover have "\<forall>d\<in>set (takeWhile is_digit (drop 5 (c # cs))). is_digit d"
      by (auto dest: set_takeWhileD)
    ultimately show ?thesis using m by blast
  next
    case False
    with Cons.prems have "pageNumRegex_first cs = Some m" by (simp split: if_splits)
    then show ?thesis by (rule Cons.IH)
  qed
qed

lemma pageNumRegex_first_split:
  assumes "pageNumRegex_first s = Some m"
  shows "splitBy m CHR ''='' = [''page'', drop 5 m]"
proof -
  from pageNumRegex_first_shape [OF assms] obtain ds
    where m: "m = ''page='' @ ds" and d: "\<forall>d\<in>set ds. is_digit d" by blast
  from d have "CHR ''='' \<notin> set ds" by (auto dest: digit_not_equals)
  then have "splitBy ds CHR ''='' = [ds]" by (rule splitBy_no_sep)
  with m show ?thesis by simp
qed

lemma getPageNumber_closed:
  "getPageNumber url =
     (case pageNumRegex_first (trim url) of None \<Rightarrow> 0 | Some m \<Rightarrow> parseInt (drop 5 m))"
  by (auto simp: getPageNumber_def pageNumRegex_first_split split: option.splits)

lemma parseSection_raises_iff:
  "isl (parseSection h sec) \<longleftrightarrow> length (splitBy sec CHR '';'') < 2"
  by (cases "splitBy sec CHR '';''" rule: list.exhaust; cases "tl (splitBy sec CHR '';'')")
    (auto simp: parseSection_def Let_def)

lemma parseSections_raises_iff:
  "isl (parseSections h secs) \<longleftrightarrow> (\<exists>sec\<in>set secs. length (splitBy sec CHR '';'') < 2)"
proof (induction secs arbitrary: h)
  case Nil
  then show ?case by simp
next
  case (Cons sec secs)
  show ?case
  proof (cases "parseSection h sec")
    case (Inl e)
    then have "isl (parseSection h sec)" by simp
    then have "length (splitBy sec CHR '';'') < 2" by (simp add: parseSection_raises_iff)
    with Inl show ?thesis by simp
  next
    case (Inr info)
    then have "\<not> isl (parseSection h sec)" by simp
    then have "\<not> length (splitBy sec CHR '';'') < 2" by (simp add: parseSection_raises_iff)
    with Inr Cons.IH [of info] show ?thesis by simp
  qed
qed

lemma toLinkHeader_raises_iff:
  "isl (toLinkHeader (HeaderString s)) \<longleftrightarrow>
     s \<noteq> [] \<and> (\<exists>sec\<in>set (map trim (splitByComma s)). length (splitBy sec CHR '';'') < 2)"
proof (cases "s = []")
  case True
  then show ?thesis by (simp add: toLinkHeader_def isNullOrEmptyOrUndefined_def)
next
  case False
  let ?h0 = "\<lparr>prevPage = 0, nextPage = 0, totalPages = 0, pageData = []\<rparr>"
  have "isl (toLinkHeader (HeaderString s)) = isl (parseSections ?h0 (map trim (splitByComma s)))"
    using False
    by (simp add: toLinkHeader_def isNullOrEmptyOrUndefined_def Let_def split: sum.splits)
  with False show ?thesis by (simp only: parseSections_raises_iff) simp
qed

lemma toLinkHeader_no_page:
  "toLinkHeader (HeaderString no_page_header) =
     Inr (Some \<lparr>prevPage = 0, nextPage = 0, totalPages = 0,
       pageData = [\<lparr>pageUrl = ''<https://api.example.com/x>'',
                    metadata = ''rel='' @ [CHR 0x22] @ ''last'' @ [CHR 0x22]\<rparr>]\<rparr>)"
  by code_simp

subsection \<open>The outcome depends on the callback at coerced arguments only\<close>

lemma getAllData_coerced:
  "getAllData sched getData (if page < 1 then 1 else page) (clamp q 1 100) = getAllData sched getData page q"
  unfolding getAllData_def clamp_idem by simp

lemma getAllDataUntil_coerced:
  "getAllDataUntil sched getData (if page < 1 then 1 else page) (clamp q 1 100) until =
   getAllDataUntil sched getData page q until"
  unfolding getAllDataUntil_def clamp_idem by simp

lemma getAllFilteredData_coerced:
  "getAllFilteredData sched getData (if page < 1 then 1 else page) (clamp q 1 100) filter_fn =
   getAllFilteredData sched getData page q filter_fn"
  unfolding getAllFilteredData_def clamp_idem by simp

lemma engine_groups_closed:
  "engine_groups n = (filter (\<lambda>i. i \<noteq> 1) [1..n div 2], filter (\<lambda>i. i \<noteq> 1) (rev [n div 2 + 1..n]))"
  by (simp add: engine_groups_def createAlternatePagesGroups_closed)

lemma engine_groups_set:
  "set (fst (engine_groups n)) \<union> set (snd (engine_groups n)) = {2..n}"
  unfolding engine_groups_closed by auto

lemma round_pages_subset: "set (round_pages A B i) \<subseteq> set A \<union> set B"
  by (auto simp: round_pages_def)

lemma getAllData_cong:
  assumes "\<forall>p. 1 \<le> p \<longrightarrow> g p (clamp q 1 100) = getData p (clamp q 1 100)"
  shows "getAllData sched g page q = getAllData sched getData page q"
proof -
  have m: "\<And>n. map (\<lambda>i. g i (clamp q 1 100)) [2..n] = map (\<lambda>i. getData i (clamp q 1 100)) [2..n]"
    using assms by (intro map_cong) auto
  have s: "g (if page < 1 then 1 else page) (clamp q 1 100) =
      getData (if page < 1 then 1 else page) (clamp q 1 100)"
    using assms by simp
  show ?thesis by (simp only: getAllData_def Let_def s m)
qed

lemma until_loop_cong:
  assumes "\<forall>p\<in>set A \<union> set B. g p q = getData p q"
  shows "until_loop sched g q until A B maxLen i calls =
         until_loop sched getData q until A B maxLen i calls"
proof (induction "maxLen - i" arbitrary: i calls)
  case 0
  then have "\<not> i < maxLen" by simp
  then show ?case by (simp add: until_loop_exit)
next
  case (Suc d)
  from Suc(2) have d: "d = maxLen - (i + 1)" by simp
  have m: "map (\<lambda>p. g p q) (round_pages A B i) = map (\<lambda>p. getData p q) (round_pages A B i)"
    using assms round_pages_subset [of A B i] by (intro map_cong) auto
  have ih: "\<And>c. until_loop sched g q until A B maxLen (i + 1) c =
      until_loop sched getData q until A B maxLen (i + 1) c"
    using Suc(1) [OF d] .
  show ?case
    by (simp only: until_loop.simps [of sched g q until A B maxLen i calls]
      until_loop.simps [of sched getData q until A B maxLen i calls] Let_def m ih)
qed

lemma getAllDataUntil_cong:
  assumes "\<forall>p. 1 \<le> p \<longrightarrow> g p (clamp q 1 100) = getData p (clamp q 1 100)"
  shows "getAllDataUntil sched g page q until = getAllDataUntil sched getData page q until"
proof -
  have s: "g (if page < 1 then 1 else page) (clamp q 1 100) =
      getData (if page < 1 then 1 else page) (clamp q 1 100)"
    using assms by simp
  have l: "(case createAlternatePagesGroups n of
        (groupA0, groupB0) \<Rightarrow>
          until_loop sched g (clamp q 1 100) until
            (filter (\<lambda>i. i \<noteq> 1) groupA0) (filter (\<lambda>i. i \<noteq> 1) groupB0)
            (max (length (filter (\<lambda>i. i \<noteq> 1) groupA0)) (length (filter (\<lambda>i. i \<noteq> 1) groupB0)))
            0 c) =
      (case createAlternatePagesGroups n of
        (groupA0, groupB0) \<Rightarrow>
          until_loop sched getData (clamp q 1 100) until
            (filter (\<lambda>i. i \<noteq> 1) groupA0) (filter (\<lambda>i. i \<noteq> 1) groupB0)
            (max (length (filter (\<lambda>i. i \<noteq> 1) groupA0)) (length (filter (\<lambda>i. i \<noteq> 1) groupB0)))
            0 c)" for n c
    unfolding createAlternatePagesGroups_closed prod.case
    by (rule until_loop_cong) (use assms in auto)
  show ?thesis
    by (simp only: getAllDataUntil_def Let_def s l)
qed

lemma getAllFilteredData_cong:
  assumes "\<forall>p. 1 \<le> p \<longrightarrow> g p (clamp q 1 100) = getData p (clamp q 1 100)"
  shows "getAllFilteredData sched g page q filter_fn = getAllFilteredData sched getData page q filter_fn"
proof -
  have "getAllData sched g (if page < 1 then 1 else page) (clamp q 1 100) =
      getAllData sched getData (if page < 1 then 1 else page) (clamp q 1 100)"
    using assms by (simp only: getAllData_coerced getAllData_cong)
  then show ?thesis by (simp only: getAllFilteredData_def Let_def)
qed

lemma five_pages_run:
  "getAllData reverse_completion five_pages 1 100 =
     (Inr [1, 2, 3, 4, 5], [(1, 100), (2, 100), (3, 100), (4, 100), (5, 100)])"
  by code_simp

lemma five_pages_search:
  "getAllDataUntil reverse_completion five_pages 1 100 never =
     (Inr [], [(1, 100), (2, 100), (5, 100), (4, 100), (3, 100)])"
  by code_simp

lemma five_pages_filtered:
  "getAllFilteredData reverse_completion five_pages 1 100 rev =
     (Inr [5, 4, 3, 2, 1], [(1, 100), (2, 100), (3, 100), (4, 100), (5, 100)])"
  by code_simp

subsection \<open>A rejected fetch ends the operation\<close>

lemma round_no_hit:
  assumes "\<not> round_hit getData q until A B i"
  shows "\<not> ((if i < length A then page_items getData q (A ! i) else []) \<noteq> [] \<and>
            until (if i < length A then page_items getData q (A ! i) else []))"
    and "\<not> ((if i < length B then page_items getData q (B ! i) else []) \<noteq> [] \<and>
            until (if i < length B then page_items getData q (B ! i) else []))"
  using assms by (auto simp: round_hit_def round_pages_def)

lemma until_loop_rejected_later:
  assumes f: "fair sched" and j: "j < maxLen"
    and bad: "\<exists>p\<in>set (round_pages A B j). isl (getData p q)"
  shows "i \<le> j \<Longrightarrow> \<forall>k. i \<le> k \<and> k < j \<longrightarrow> \<not> round_hit getData q until A B k \<Longrightarrow>
     fst (until_loop sched getData q until A B maxLen i calls) = Inl (ProcessExit 1)"
proof (induction "j - i" arbitrary: i calls)
  case 0
  then have "i = j" by simp
  with bad j show ?case
    by (simp add: until_loop_round_rejected [where getData = getData and q = q, OF f])
next
  case (Suc d)
  then have ij: "i < j" by simp
  with j have i: "i < maxLen" by simp
  show ?case
  proof (cases "\<exists>p\<in>set (round_pages A B i). isl (getData p q)")
    case True
    then show ?thesis
      by (simp add: until_loop_round_rejected [where getData = getData and q = q, OF f i])
  next
    case False
    then have ok: "\<forall>p\<in>set (round_pages A B i). \<not> isl (getData p q)" by simp
    from Suc.prems(2) ij have "\<not> round_hit getData q until A B i" by simp
    note nh = round_no_hit [OF this]
    have "until_loop sched getData q until A B maxLen i calls =
        until_loop sched getData q until A B maxLen (i + 1)
          (calls @ map (\<lambda>p. (p, q)) (round_pages A B i))"
      using nh by (simp only: until_loop_round [where getData = getData and q = q, OF f i ok] Let_def if_False)
    moreover have "fst (until_loop sched getData q until A B maxLen (i + 1)
          (calls @ map (\<lambda>p. (p, q)) (round_pages A B i))) = Inl (ProcessExit 1)"
      using Suc.hyps(2) ij Suc.prems(2) by (intro Suc.hyps(1)) auto
    ultimately show ?thesis by simp
  qed
qed

lemma round_of_page:
  assumes "p \<in> set A \<union> set B"
  shows "\<exists>j < max (length A) (length B). p \<in> set (round_pages A B j)"
proof -
  from assms consider (a) "p \<in> set A" | (b) "p \<in> set B" by blast
  then show ?thesis
  proof cases
    case a
    then obtain j where "j < length A" "A ! j = p" by (auto simp: in_set_conv_nth)
    then show ?thesis by (intro exI [of _ j]) (auto simp: round_pages_def)
  next
    case b
    then obtain j where "j < length B" "B ! j = p" by (auto simp: in_set_conv_nth)
    then show ?thesis by (intro exI [of _ j]) (auto simp: round_pages_def)
  qed
qed

lemma getAllData_seed_rejected:
  "isl (getData (if page < 1 then 1 else page) (clamp q 1 100)) \<Longrightarrow>
   getAllData sched getData page q = (Inl (ProcessExit 1), [(if page < 1 then 1 else page, clamp q 1 100)])"
  by (cases "getData (if page < 1 then 1 else page) (clamp q 1 100)")
    (simp_all add: getAllData_def Let_def)

lemma getAllDataUntil_seed_rejected:
  "isl (getData (if page < 1 then 1 else page) (clamp q 1 100)) \<Longrightarrow>
   getAllDataUntil sched getData page q until =
     (Inl (ProcessExit 1), [(if page < 1 then 1 else page, clamp q 1 100)])"
  by (cases "getData (if page < 1 then 1 else page) (clamp q 1 100)")
    (simp_all add: getAllDataUntil_def Let_def)

lemma getAllData_page_rejected:
  assumes f: "fair sched"
    and seed: "getData (if page < 1 then 1 else page) (clamp q 1 100) = Inr (items, resp)"
    and hdr: "toLinkHeader (ResponseObject resp) = Inr lh"
    and bad: "\<exists>i\<in>{2..(case lh of None \<Rightarrow> 1 | Some h \<Rightarrow> totalPages h)}. isl (getData i (clamp q 1 100))"
  shows "fst (getAllData sched getData page q) = Inl (ProcessExit 1)"
proof -
  define n where "n = (case lh of None \<Rightarrow> 1 | Some h \<Rightarrow> totalPages h)"
  let ?reqs = "map (\<lambda>i. getData i (clamp q 1 100)) [2..n]"
  from bad have "\<exists>r\<in>set ?reqs. isl r" by (auto simp: n_def)
  with f obtain e where "promise_all (sched 0 (length ?reqs)) ?reqs = Inl e"
    using fair_join_fail by blast
  with seed hdr show ?thesis by (simp add: getAllData_def Let_def n_def)
qed

lemma getAllDataUntil_round_rejected:
  assumes f: "fair sched"
    and seed: "getData (if page < 1 then 1 else page) (clamp q 1 100) = Inr (items, resp)"
    and nm: "\<not> until items"
    and hdr: "toLinkHeader (ResponseObject resp) = Inr lh"
    and n: "(case lh of None \<Rightarrow> 0 | Some h \<Rightarrow> totalPages h) = n"
    and j: "j < num_rounds n"
    and bad: "\<exists>p\<in>set (round_pages (fst (engine_groups n)) (snd (engine_groups n)) j).
        isl (getData p (clamp q 1 100))"
    and nh: "\<forall>k<j. \<not> round_hit getData (clamp q 1 100) until
        (fst (engine_groups n)) (snd (engine_groups n)) k"
  shows "fst (getAllDataUntil sched getData page q until) = Inl (ProcessExit 1)"
proof -
  have "getAllDataUntil sched getData page q until =
      until_loop sched getData (clamp q 1 100) until (fst (engine_groups n)) (snd (engine_groups n))
        (num_rounds n) 0 [(if page < 1 then 1 else page, clamp q 1 100)]"
    using seed nm hdr n
    by (rule getAllDataUntil_loop [where getData = getData and p = page and q = q])
  moreover have "fst (until_loop sched getData (clamp q 1 100) until (fst (engine_groups n))
      (snd (engine_groups n)) (num_rounds n) 0 [(if page < 1 then 1 else page, clamp q 1 100)]) =
      Inl (ProcessExit 1)"
    using nh
    by (intro until_loop_rejected_later
        [where j = j and getData = getData and q = "clamp q 1 100", OF f j bad]) auto
  ultimately show ?thesis by simp
qed

lemma getAllDataUntil_page_rejected:
  assumes f: "fair sched"
    and seed: "getData (if page < 1 then 1 else page) (clamp q 1 100) = Inr (items, resp)"
    and nm: "\<not> until items"
    and hdr: "toLinkHeader (ResponseObject resp) = Inr lh"
    and n: "(case lh of None \<Rightarrow> 0 | Some h \<Rightarrow> totalPages h) = n"
    and bad: "\<exists>p\<in>{2..n}. isl (getData p (clamp q 1 100))"
    and nh: "\<forall>p\<in>{2..n}. \<not> (page_items getData (clamp q 1 100) p \<noteq> [] \<and>
        until (page_items getData (clamp q 1 100) p))"
  shows "fst (getAllDataUntil sched getData page q until) = Inl (ProcessExit 1)"
proof -
  let ?A = "fst (engine_groups n)" and ?B = "snd (engine_groups n)"
  from bad obtain p where p: "p \<in> {2..n}" "isl (getData p (clamp q 1 100))" by blast
  then have "p \<in> set ?A \<union> set ?B" by (simp only: engine_groups_set)
  from round_of_page [OF this] obtain j
    where j: "j < num_rounds n" "p \<in> set (round_pages ?A ?B j)"
    by (auto simp: num_rounds_def)
  with p have b: "\<exists>p\<in>set (round_pages ?A ?B j). isl (getData p (clamp q 1 100))" by blast
  have "\<forall>k. \<not> round_hit getData (clamp q 1 100) until ?A ?B k"
  proof
    fix k
    have "set (round_pages ?A ?B k) \<subseteq> {2..n}"
      using round_pages_subset [of ?A ?B k] by (simp only: engine_groups_set)
    with nh show "\<not> round_hit getData (clamp q 1 100) until ?A ?B k"
      unfolding round_hit_def by blast
  qed
  then have "\<forall>k<j. \<not> round_hit getData (clamp q 1 100) until ?A ?B k" by simp
  from getAllDataUntil_round_rejected [where getData = getData and q = q and page = page,
      OF f seed nm hdr n j(1) b this]
  show ?thesis .
qed

text \<open>The same, read off the log of invocations.\<close>

lemma rejected_invocation_exits:
  assumes "fair sched"
  shows
    "((\<exists>c\<in>set (snd (getAllData sched getData page qtyPerPage)). rejected getData c) \<longrightarrow>
        fst (getAllData sched getData page qtyPerPage) = Inl (ProcessExit 1)) \<and>
     ((\<exists>c\<in>set (snd (getAllDataUntil sched getData page qtyPerPage until)). rejected getData c) \<longrightarrow>
        fst (getAllDataUntil sched getData page qtyPerPage until) = Inl (ProcessExit 1))"
proof (intro conjI impI)
  let ?p = "if page < 1 then 1 else page"
  let ?q = "clamp qtyPerPage 1 100"
  assume bad: "\<exists>c\<in>set (snd (getAllData sched getData page qtyPerPage)). rejected getData c"
  show "fst (getAllData sched getData page qtyPerPage) = Inl (ProcessExit 1)"
  proof (cases "getData ?p ?q")
    case (Inl e)
    then show ?thesis by (simp add: getAllData_def Let_def)
  next
    case (Inr r)
    obtain items resp where r: "r = (items, resp)" by (cases r)
    show ?thesis
    proof (cases "toLinkHeader (ResponseObject resp)")
      case (Inl e)
      with Inr r show ?thesis by (simp add: getAllData_def Let_def)
    next
      case lh: (Inr lh)
      define n where "n = (case lh of None \<Rightarrow> 1 | Some h \<Rightarrow> totalPages h)"
      let ?reqs = "map (\<lambda>i. getData i ?q) [2..n]"
      have calls: "snd (getAllData sched getData page qtyPerPage) = (?p, ?q) # map (\<lambda>i. (i, ?q)) [2..n]"
        using Inr r lh by (simp add: getAllData_def Let_def n_def split: sum.splits)
      from Inr have "\<not> rejected getData (?p, ?q)" by (simp add: rejected_def)
      with bad calls have "\<exists>r\<in>set ?reqs. isl r" by (auto simp: rejected_def)
      with \<open>fair sched\<close> obtain e where "promise_all (sched 0 (length ?reqs)) ?reqs = Inl e"
        using fair_join_fail by blast
      with Inr r lh show ?thesis by (simp add: getAllData_def Let_def n_def)
    qed
  qed
next
  let ?p = "if page < 1 then 1 else page"
  let ?q = "clamp qtyPerPage 1 100"
  assume bad: "\<exists>c\<in>set (snd (getAllDataUntil sched getData page qtyPerPage until)). rejected getData c"
  show "fst (getAllDataUntil sched getData page qtyPerPage until) = Inl (ProcessExit 1)"
  proof (cases "getData ?p ?q")
    case (Inl e)
    then show ?thesis by (simp add: getAllDataUntil_def Let_def)
  next
    case (Inr r)
    obtain items resp where r: "r = (items, resp)" by (cases r)
    from Inr have seed_ok: "\<not> rejected getData (?p, ?q)" by (simp add: rejected_def)
    show ?thesis
    proof (cases "until items")
      case True
      with Inr r have "snd (getAllDataUntil sched getData page qtyPerPage until) = [(?p, ?q)]"
        by (simp add: getAllDataUntil_def Let_def)
      with bad seed_ok show ?thesis by simp
    next
      case False
      show ?thesis
      proof (cases "toLinkHeader (ResponseObject resp)")
        case (Inl e)
        with Inr r False show ?thesis by (simp add: getAllDataUntil_def Let_def)
      next
        case lh: (Inr lh)
        define n where "n = (case lh of None \<Rightarrow> 0 | Some h \<Rightarrow> totalPages h)"
        from getAllDataUntil_loop
            [where getData = getData and p = page and q = qtyPerPage and until = until,
             OF Inr [unfolded r] False lh n_def [symmetric]]
        have loop: "getAllDataUntil sched getData page qtyPerPage until =
            until_loop sched getData ?q until (fst (engine_groups n)) (snd (engine_groups n))
              (num_rounds n) 0 [(?p, ?q)]" .
        from until_loop_calls [OF \<open>fair sched\<close>, of getData ?q until "fst (engine_groups n)"
            "snd (engine_groups n)" "num_rounds n" 0 "[(?p, ?q)]"]
        obtain new where
          "snd (getAllDataUntil sched getData page qtyPerPage until) = [(?p, ?q)] @ new"
          "(\<exists>c\<in>set new. rejected getData c) \<longrightarrow>
             fst (getAllDataUntil sched getData page qtyPerPage until) = Inl (ProcessExit 1)"
          unfolding loop by blast
        with bad seed_ok show ?thesis by auto
      qed
    qed
  qed
qed

section \<open>The claims\<close>

subsection \<open>Link header parser\<close>

text \<open>
  C9. \<^verbatim>\<open>toLinkHeader\<close> applied to the header string
  \<^verbatim>\<open><https://api.example.com/x?page=2>; rel="next", <https://api.example.com/x?page=5>; rel="last"\<close>
  returns a header with \<open>nextPage = 2\<close>, \<open>totalPages = 5\<close> and \<open>prevPage = 0\<close>; applied to the
  empty string, or to a response object without a \<^verbatim>\<open>Link\<close> header, it returns \<^verbatim>\<open>null\<close>.
\<close>

theorem toLinkHeader_example:
  "toLinkHeader (HeaderString example_header) = Inr (Some example_parsed) \<and>
   nextPage example_parsed = 2 \<and> totalPages example_parsed = 5 \<and> prevPage example_parsed = 0 \<and>
   toLinkHeader (HeaderString []) = Inr None \<and>
   (headers r ''Link'' = None \<longrightarrow> toLinkHeader (ResponseObject r) = Inr None)"
proof -
  have "toLinkHeader (HeaderString example_header) = Inr (Some example_parsed)"
    by code_simp
  moreover have "toLinkHeader (HeaderString []) = Inr None"
    by (simp add: toLinkHeader_def isNullOrEmptyOrUndefined_def)
  moreover have "headers r ''Link'' = None \<longrightarrow> toLinkHeader (ResponseObject r) = Inr None"
    by (simp add: toLinkHeader_def)
  ultimately show ?thesis by (simp add: example_parsed_def)
qed

theorem toLinkHeader_example_witness:
  "headers plain_response ''Link'' = None \<and> toLinkHeader (ResponseObject plain_response) = Inr None"
proof -
  have h: "headers plain_response ''Link'' = None" by (simp add: plain_response_def)
  with toLinkHeader_example [of plain_response] show ?thesis by simp
qed

text \<open>
  C5. The claim is that \<^verbatim>\<open>toLinkHeader\<close> never raises on a non-empty header string and
  that a section without its \<^verbatim>\<open>;\<close>-delimited metadata half is degraded gracefully. The
  code reads \<^verbatim>\<open>pageInfoSections[1].trim()\<close> without a check: on the non-empty header
  \<^verbatim>\<open><https://api.example.com/x?page=2>\<close>, whose only section has no \<^verbatim>\<open>;\<close>, index 1 is
  \<^verbatim>\<open>undefined\<close> and the call throws a \<^verbatim>\<open>TypeError\<close>. Lemma \<open>toLinkHeader_raises_iff\<close>
  gives every header on which it does; a URL without a \<^verbatim>\<open>page=\<close> token does give \<open>0\<close>
  (lemmas \<open>getPageNumber_closed\<close> and \<open>toLinkHeader_no_page\<close>).
\<close>

theorem toLinkHeader_raises:
  "url_only_header \<noteq> [] \<and> toLinkHeader (HeaderString url_only_header) = Inl TypeError"
proof -
  have "toLinkHeader (HeaderString url_only_header) = Inl TypeError" by code_simp
  then show ?thesis by (simp add: url_only_header_def)
qed

subsection \<open>Page group partitioner\<close>

text \<open>
  C6. For every \<open>totalPages = n \<ge> 1\<close>, \<^verbatim>\<open>createAlternatePagesGroups(n)\<close> returns
  \<open>groupA = [1 .. floor(n/2)]\<close> in ascending order and \<open>groupB = [floor(n/2)+1 .. n]\<close> in
  descending order; after the engine removes page 1 from both groups, \<open>n = 10\<close> yields
  \<open>[2,3,4,5]\<close> and \<open>[10,9,8,7,6]\<close>, and \<open>n = 1\<close> yields two empty groups.
\<close>

theorem createAlternatePagesGroups_halves:
  "(1 \<le> n \<longrightarrow>
      fst (createAlternatePagesGroups n) = [1..n div 2] \<and>
      snd (createAlternatePagesGroups n) = rev [n div 2 + 1..n] \<and>
      sorted_wrt (<) (fst (createAlternatePagesGroups n)) \<and>
      sorted_wrt (>) (snd (createAlternatePagesGroups n))) \<and>
   engine_groups 10 = ([2, 3, 4, 5], [10, 9, 8, 7, 6]) \<and>
   engine_groups 1 = ([], [])"
proof -
  have "engine_groups 10 = ([2, 3, 4, 5], [10, 9, 8, 7, 6])" by code_simp
  moreover have "engine_groups 1 = ([], [])" by code_simp
  moreover have "sorted_wrt (>) (rev [n div 2 + 1..n])"
    by (simp add: sorted_wrt_rev sorted_wrt_upto)
  ultimately show ?thesis
    by (simp add: createAlternatePagesGroups_closed sorted_wrt_upto)
qed

theorem createAlternatePagesGroups_halves_witness:
  "(1::int) \<le> 7 \<and> createAlternatePagesGroups 7 = ([1, 2, 3], [7, 6, 5, 4])"
proof -
  have "[1..7 div 2] = [1, 2, 3::int]" "rev [7 div 2 + 1..7] = [7, 6, 5, 4::int]"
    by code_simp+
  with createAlternatePagesGroups_halves [of 7] show ?thesis
    by (simp add: prod_eq_iff)
qed

subsection \<open>Fetch-until\<close>

text \<open>
  C7. For every page-fetch callback and every predicate, if the predicate holds on the seed
  page's items, \<^verbatim>\<open>getAllDataUntil\<close> invokes the callback exactly once and returns the seed
  page's items unchanged.
\<close>

theorem getAllDataUntil_seed_match:
  assumes "getData (if page < 1 then 1 else page) (clamp qtyPerPage 1 100) = Inr (items, resp)"
    and "until items"
  shows "getAllDataUntil sched getData page qtyPerPage until =
     (Inr items, [(if page < 1 then 1 else page, clamp qtyPerPage 1 100)])"
  using assms by (simp add: getAllDataUntil_def Let_def)

theorem getAllDataUntil_seed_match_witness:
  "five_pages 1 100 = Inr ([1], response_with_last ''5'') \<and> has_one [1] \<and>
   getAllDataUntil reverse_completion five_pages 1 100 has_one = (Inr [1], [(1, 100)])"
proof -
  have s: "five_pages (if (1::int) < 1 then 1 else 1) (clamp 100 1 100) = Inr ([1], response_with_last ''5'')"
    by (simp add: five_pages_def paged_def clamp_def)
  have u: "has_one [1]" by (simp add: has_one_def)
  from s u getAllDataUntil_seed_match
      [where getData = five_pages and page = 1 and qtyPerPage = 100 and until = has_one
         and items = "[1]" and resp = "response_with_last ''5''" and sched = reverse_completion]
  show ?thesis
    by (simp add: clamp_def)
qed

text \<open>
  C2. The claim: in every round \<open>i\<close>, if the page fetched for \<^verbatim>\<open>groupA[i]\<close> satisfies the
  predicate, its items are returned without inspecting the result for \<^verbatim>\<open>groupB[i]\<close>;
  otherwise, if the page fetched for \<^verbatim>\<open>groupB[i]\<close> satisfies the predicate, its items are
  returned. The code also requires the page to be non-empty
  (\<^verbatim>\<open>groupItemsA.length > 0 && until(groupItemsA)\<close>), and it joins both fetches of the
  round before it looks at either. As amended: in a round whose fetches all succeed, the
  items of \<^verbatim>\<open>groupA[i]\<close>'s page are returned if that page is non-empty and satisfies the
  predicate; otherwise the items of \<^verbatim>\<open>groupB[i]\<close>'s page are returned if that page is
  non-empty and satisfies the predicate; otherwise the search goes on to round \<open>i + 1\<close>.
\<close>

theorem until_round_priority:
  assumes "fair sched" and "i < maxLen"
    and "\<forall>p\<in>set (round_pages groupA groupB i). \<not> isl (getData p qtyPerPage)"
  shows "until_loop sched getData qtyPerPage until groupA groupB maxLen i calls =
     (let a = (if i < length groupA then page_items getData qtyPerPage (groupA ! i) else []);
          b = (if i < length groupB then page_items getData qtyPerPage (groupB ! i) else []);
          calls' = calls @ map (\<lambda>p. (p, qtyPerPage)) (round_pages groupA groupB i)
      in if a \<noteq> [] \<and> until a then (Inr a, calls')
         else if b \<noteq> [] \<and> until b then (Inr b, calls')
         else until_loop sched getData qtyPerPage until groupA groupB maxLen (i + 1) calls')"
  using assms by (rule until_loop_round)

theorem until_round_priority_witness:
  "fair reverse_completion \<and> (0::nat) < 3 \<and>
   round_pages [2] [5, 4, 3] 0 = [2, 5] \<and>
   five_pages 2 100 = Inr ([2], response_with_last ''5'') \<and>
   five_pages 5 100 = Inr ([5], response_with_last ''5'') \<and>
   at_most_one [2] \<and> at_most_one [5] \<and>
   until_loop reverse_completion five_pages 100 at_most_one [2] [5, 4, 3] 3 0 [(1, 100)] =
     (Inr [2], [(1, 100), (2, 100), (5, 100)])"
proof -
  have r: "round_pages [2] [5, 4, 3] 0 = [2, 5]" by (simp add: round_pages_def)
  have ok: "\<forall>p\<in>set (round_pages [2] [5, 4, 3] 0). \<not> isl (five_pages p 100)"
    by (simp add: r five_pages_ok)
  have i: "(0::nat) < 3" by simp
  from until_round_priority
      [where getData = five_pages and qtyPerPage = 100 and until = at_most_one
         and calls = "[(1, 100)]", OF fair_reverse_completion i ok]
  show ?thesis
    using fair_reverse_completion
    by (simp add: r five_pages_ok five_pages_items at_most_one_def)
qed

theorem until_empty_page_counterexample:
  "engine_groups 4 = ([2], [4, 3]) \<and>
   page_items four_pages 100 2 = [] \<and> at_most_one (page_items four_pages 100 2) \<and>
   page_items four_pages 100 4 = [7] \<and>
   fst (getAllDataUntil reverse_completion four_pages 1 100 at_most_one) = Inr [7]"
  by code_simp

text \<open>
  C3. The claim: over 5 pages with a predicate that is false on every page,
  \<^verbatim>\<open>getAllDataUntil\<close> returns an empty sequence after exhausting all rounds, and the
  callback is invoked once for the seed plus twice per round. The groups are \<open>[2]\<close> and
  \<open>[5,4,3]\<close>, so there are 3 rounds, and only the first one has two fetches. As amended:
  the operation returns an empty sequence after its 3 rounds, and the callback is invoked 5
  times, once per page, in the order 1, 2, 5, 4, 3.
\<close>

theorem until_exhausted_counterexample:
  "fst (getAllDataUntil reverse_completion five_pages 1 100 never) = Inr [] \<and>
   length (snd (getAllDataUntil reverse_completion five_pages 1 100 never)) = 5 \<and>
   num_rounds 5 = 3 \<and>
   length (snd (getAllDataUntil reverse_completion five_pages 1 100 never)) \<noteq> 1 + 2 * num_rounds 5"
  by code_simp

text \<open>
  C3, as amended: whenever the seed response reports 5 pages, every fetch succeeds and the
  predicate is false on every page.
\<close>

theorem until_exhausted_five_pages:
  assumes f: "fair sched"
    and seed: "getData 1 (clamp qtyPerPage 1 100) = Inr (items, resp)"
    and hdr: "toLinkHeader (ResponseObject resp) = Inr (Some h)"
    and n: "totalPages h = 5"
    and ok: "\<forall>p\<in>{2..5}. \<not> isl (getData p (clamp qtyPerPage 1 100))"
    and no: "\<forall>p\<in>{1..5}. \<not> until (page_items getData (clamp qtyPerPage 1 100) p)"
  shows "getAllDataUntil sched getData 1 qtyPerPage until =
     (Inr [], map (\<lambda>p. (p, clamp qtyPerPage 1 100)) [1, 2, 5, 4, 3]) \<and> num_rounds 5 = 3"
proof -
  let ?q = "clamp qtyPerPage 1 100"
  have r: "num_rounds 5 = 3" by (simp add: num_rounds_def engine_groups_5)
  have "page_items getData ?q 1 = items" using seed by (simp add: page_items_def)
  with no have "\<not> until items" by auto
  with seed hdr n have start: "getAllDataUntil sched getData 1 qtyPerPage until =
      until_loop sched getData ?q until [2] [5, 4, 3] 3 0 [(1, ?q)]"
    using getAllDataUntil_loop [where getData = getData and p = 1 and q = qtyPerPage
        and lh = "Some h" and n = 5 and until = until and sched = sched]
    by (simp add: engine_groups_5 r)
  have p0: "round_pages [2] [5, 4, 3] 0 = [2, 5]"
    and p1: "round_pages [2] [5, 4, 3] (Suc 0) = [4]"
    and p2: "round_pages [2] [5, 4, 3] (Suc (Suc 0)) = [3]"
    by (simp_all add: round_pages_def)
  have r0: "until_loop sched getData ?q until [2] [5, 4, 3] 3 0 [(1, ?q)] =
      until_loop sched getData ?q until [2] [5, 4, 3] 3 (Suc 0) [(1, ?q), (2, ?q), (5, ?q)]"
    using ok no by (subst until_loop_round [where getData = getData and q = ?q, OF f]) (simp_all add: p0)
  have r1: "until_loop sched getData ?q until [2] [5, 4, 3] 3 (Suc 0) [(1, ?q), (2, ?q), (5, ?q)] =
      until_loop sched getData ?q until [2] [5, 4, 3] 3 (Suc (Suc 0)) [(1, ?q), (2, ?q), (5, ?q), (4, ?q)]"
    using ok no by (subst until_loop_round [where getData = getData and q = ?q, OF f]) (simp_all add: p1)
  have r2: "until_loop sched getData ?q until [2] [5, 4, 3] 3 (Suc (Suc 0))
        [(1, ?q), (2, ?q), (5, ?q), (4, ?q)] =
      until_loop sched getData ?q until [2] [5, 4, 3] 3 (Suc (Suc (Suc 0)))
        [(1, ?q), (2, ?q), (5, ?q), (4, ?q), (3, ?q)]"
    using ok no by (subst until_loop_round [where getData = getData and q = ?q, OF f]) (simp_all add: p2)
  have r3: "until_loop sched getData ?q until [2] [5, 4, 3] 3 (Suc (Suc (Suc 0)))
        [(1, ?q), (2, ?q), (5, ?q), (4, ?q), (3, ?q)] =
      (Inr [], [(1, ?q), (2, ?q), (5, ?q), (4, ?q), (3, ?q)])"
    by (simp add: until_loop_exit)
  from start r0 r1 r2 r3 r show ?thesis by simp
qed

theorem until_exhausted_five_pages_witness:
  "fair reverse_completion \<and>
   five_pages 1 100 = Inr ([1], response_with_last ''5'') \<and>
   toLinkHeader (ResponseObject (response_with_last ''5'')) = Inr (Some (parsed_last ''5'' 5)) \<and>
   totalPages (parsed_last ''5'' 5) = 5 \<and>
   getAllDataUntil reverse_completion five_pages 1 100 never =
     (Inr [], [(1, 100), (2, 100), (5, 100), (4, 100), (3, 100)])"
proof -
  have c: "clamp 100 1 100 = 100" by (simp add: clamp_def)
  have s: "five_pages 1 (clamp 100 1 100) = Inr ([1], response_with_last ''5'')"
    by (simp add: five_pages_ok)
  have t: "totalPages (parsed_last ''5'' 5) = 5" by (simp add: parsed_last_def)
  have ok: "\<forall>p\<in>{2..5}. \<not> isl (five_pages p (clamp 100 1 100))"
    by (simp add: five_pages_ok)
  have no: "\<forall>p\<in>{1..5}. \<not> never (page_items five_pages (clamp 100 1 100) p)"
    by (simp add: never_def)
  from until_exhausted_five_pages
      [where getData = five_pages and qtyPerPage = 100 and until = never,
       OF fair_reverse_completion s toLinkHeader_last5 t ok no]
  show ?thesis
    using fair_reverse_completion s toLinkHeader_last5 t by (simp add: c)
qed

subsection \<open>Fetch-all\<close>

text \<open>
  C1. For \<^verbatim>\<open>getAllData\<close> invoked with start page 1, for every \<open>totalPages = n \<ge> 1\<close> reported
  by the seed response's Link header and every callback (whose fetches succeed), the
  returned sequence is exactly the concatenation of the items of pages \<open>1..n\<close> in ascending
  page order, each page in its own order, whatever the order in which the parallel fetches
  complete.
\<close>

theorem getAllData_ascending:
  assumes "fair sched"
    and "getData 1 (clamp qtyPerPage 1 100) = Inr (items, resp)"
    and "toLinkHeader (ResponseObject resp) = Inr (Some h)"
    and "totalPages h = n" and "1 \<le> n"
    and "\<forall>i\<in>{2..n}. \<not> isl (getData i (clamp qtyPerPage 1 100))"
  shows "fst (getAllData sched getData 1 qtyPerPage) =
     Inr (concat (map (page_items getData (clamp qtyPerPage 1 100)) [1..n]))"
proof -
  have "getAllData sched getData 1 qtyPerPage =
     (Inr (items @ concat (map (page_items getData (clamp qtyPerPage 1 100)) [2..n])),
      (if (1::int) < 1 then 1 else 1, clamp qtyPerPage 1 100) # map (\<lambda>i. (i, clamp qtyPerPage 1 100)) [2..n])"
    using assms by (intro getAllData_pages [where lh = "Some h" and resp = resp]) simp_all
  moreover have "page_items getData (clamp qtyPerPage 1 100) 1 = items"
    using assms(2) by (simp add: page_items_def)
  moreover from \<open>1 \<le> n\<close> have "[1..n] = 1 # [2..n]"
    by (simp add: upto_rec1)
  ultimately show ?thesis by simp
qed

theorem getAllData_ascending_witness:
  "fair reverse_completion \<and>
   five_pages 1 100 = Inr ([1], response_with_last ''5'') \<and>
   toLinkHeader (ResponseObject (response_with_last ''5'')) = Inr (Some (parsed_last ''5'' 5)) \<and>
   totalPages (parsed_last ''5'' 5) = 5 \<and>
   fst (getAllData reverse_completion five_pages 1 100) = Inr [1, 2, 3, 4, 5]"
proof -
  have c: "clamp 100 1 100 = 100" by (simp add: clamp_def)
  have s: "five_pages 1 (clamp 100 1 100) = Inr ([1], response_with_last ''5'')"
    by (simp add: five_pages_ok)
  have t: "totalPages (parsed_last ''5'' 5) = 5" by (simp add: parsed_last_def)
  have ok: "\<forall>i\<in>{2..5}. \<not> isl (five_pages i (clamp 100 1 100))"
    by (simp add: five_pages_ok)
  have v: "concat (map (page_items five_pages 100) [1..5]) = [1, 2, 3, 4, 5]"
    by code_simp
  from getAllData_ascending
      [where getData = five_pages and qtyPerPage = 100 and n = 5,
       OF fair_reverse_completion s toLinkHeader_last5 t _ ok]
  show ?thesis
    using fair_reverse_completion s toLinkHeader_last5 t by (simp add: c v)
qed

text \<open>
  C10. For every start page \<open>p \<ge> 2\<close>, \<^verbatim>\<open>getAllData\<close> seeds with page \<open>p\<close> and still sweeps
  pages \<open>2..totalPages\<close>; when \<open>totalPages \<ge> p\<close> the result holds page \<open>p\<close>'s items twice
  (from the seed and from the sweep) and the items of pages \<open>2..p-1\<close>.
\<close>

theorem getAllData_start_page:
  assumes "fair sched" and "2 \<le> p"
    and "getData p (clamp qtyPerPage 1 100) = Inr (items, resp)"
    and "toLinkHeader (ResponseObject resp) = Inr (Some h)"
    and "totalPages h = n"
    and "\<forall>i\<in>{2..n}. \<not> isl (getData i (clamp qtyPerPage 1 100))"
  shows "snd (getAllData sched getData p qtyPerPage) =
           (p, clamp qtyPerPage 1 100) # map (\<lambda>i. (i, clamp qtyPerPage 1 100)) [2..n] \<and>
         (p \<le> n \<longrightarrow>
            fst (getAllData sched getData p qtyPerPage) =
              Inr (items @ concat (map (page_items getData (clamp qtyPerPage 1 100)) [2..p - 1]) @
                   items @ concat (map (page_items getData (clamp qtyPerPage 1 100)) [p + 1..n])))"
proof -
  let ?q = "clamp qtyPerPage 1 100"
  from \<open>2 \<le> p\<close> have p: "(if p < 1 then 1 else p) = p" by simp
  have all: "getAllData sched getData p qtyPerPage =
     (Inr (items @ concat (map (page_items getData ?q) [2..n])),
      (if p < 1 then 1 else p, ?q) # map (\<lambda>i. (i, ?q)) [2..n])"
    using assms p by (intro getAllData_pages [where lh = "Some h" and resp = resp]) simp_all
  have it: "page_items getData ?q p = items"
    using assms(3) by (simp add: page_items_def)
  have "p \<le> n \<longrightarrow> [2..n] = [2..p - 1] @ p # [p + 1..n]"
    using \<open>2 \<le> p\<close> by (simp add: upto_split3)
  with all it p show ?thesis by auto
qed

theorem getAllData_start_page_witness:
  "fair reverse_completion \<and> (2::int) \<le> 3 \<and>
   five_pages 3 100 = Inr ([3], response_with_last ''5'') \<and>
   toLinkHeader (ResponseObject (response_with_last ''5'')) = Inr (Some (parsed_last ''5'' 5)) \<and>
   totalPages (parsed_last ''5'' 5) = 5 \<and> (3::int) \<le> 5 \<and>
   getAllData reverse_completion five_pages 3 100 =
     (Inr [3, 2, 3, 4, 5], [(3, 100), (2, 100), (3, 100), (4, 100), (5, 100)])"
proof -
  have c: "clamp 100 1 100 = 100" by (simp add: clamp_def)
  have s: "five_pages 3 (clamp 100 1 100) = Inr ([3], response_with_last ''5'')"
    by (simp add: five_pages_ok)
  have t: "totalPages (parsed_last ''5'' 5) = 5" by (simp add: parsed_last_def)
  have ok: "\<forall>i\<in>{2..5}. \<not> isl (five_pages i (clamp 100 1 100))"
    by (simp add: five_pages_ok)
  have two: "(2::int) \<le> 3" by simp
  from getAllData_start_page
      [where getData = five_pages and qtyPerPage = 100 and n = 5 and p = 3,
       OF fair_reverse_completion two s toLinkHeader_last5 t ok]
  show ?thesis
    using fair_reverse_completion s toLinkHeader_last5 t by (simp add: c five_pages_items prod_eq_iff)
qed

subsection \<open>All three operations\<close>

text \<open>
  C8. In \<^verbatim>\<open>getAllData\<close>, \<^verbatim>\<open>getAllDataUntil\<close> and \<^verbatim>\<open>getAllFilteredData\<close>, the page sizes
  \<open>0\<close>, \<open>-5\<close> and \<open>500\<close> are clamped to \<open>1\<close>, \<open>1\<close> and \<open>100\<close>, and the pages \<open>0\<close> and \<open>-3\<close>
  are coerced to \<open>1\<close>, before any invocation of the callback. Stated as three separate
  facts, each for all three operations: (1) with page \<open>0\<close> or \<open>-3\<close> and any page size, the
  first invocation is for page 1 and the whole outcome is that of the same call with page
  1; (2) with page size \<open>0\<close>, \<open>-5\<close> or \<open>500\<close> and any page, every invocation carries the
  clamped size and the whole outcome is that of the same call with the clamped size; (3)
  for any page and page size, the outcome only depends on what the callback does at pages
  \<open>\<ge> 1\<close> with the clamped size: two callbacks that agree there give the same outcome.
\<close>

theorem clamped_before_fetch:
  "(page \<in> {0, -3} \<longrightarrow>
      hd (snd (getAllData sched getData page qtyPerPage)) = (1, clamp qtyPerPage 1 100) \<and>
      hd (snd (getAllDataUntil sched getData page qtyPerPage until)) = (1, clamp qtyPerPage 1 100) \<and>
      hd (snd (getAllFilteredData sched getData page qtyPerPage filter_fn)) = (1, clamp qtyPerPage 1 100) \<and>
      getAllData sched getData page qtyPerPage = getAllData sched getData 1 qtyPerPage \<and>
      getAllDataUntil sched getData page qtyPerPage until = getAllDataUntil sched getData 1 qtyPerPage until \<and>
      getAllFilteredData sched getData page qtyPerPage filter_fn =
        getAllFilteredData sched getData 1 qtyPerPage filter_fn) \<and>
   ((qtyPerPage, clamped) \<in> {(0, 1), (-5, 1), (500, 100)} \<longrightarrow>
      clamp qtyPerPage 1 100 = clamped \<and>
      (\<forall>c\<in>set (snd (getAllData sched getData page qtyPerPage)). snd c = clamped) \<and>
      (\<forall>c\<in>set (snd (getAllDataUntil sched getData page qtyPerPage until)). snd c = clamped) \<and>
      (\<forall>c\<in>set (snd (getAllFilteredData sched getData page qtyPerPage filter_fn)). snd c = clamped) \<and>
      getAllData sched getData page qtyPerPage = getAllData sched getData page clamped \<and>
      getAllDataUntil sched getData page qtyPerPage until = getAllDataUntil sched getData page clamped until \<and>
      getAllFilteredData sched getData page qtyPerPage filter_fn =
        getAllFilteredData sched getData page clamped filter_fn) \<and>
   ((\<forall>p. 1 \<le> p \<longrightarrow> g p (clamp qtyPerPage 1 100) = getData p (clamp qtyPerPage 1 100)) \<longrightarrow>
      getAllData sched g page qtyPerPage = getAllData sched getData page qtyPerPage \<and>
      getAllDataUntil sched g page qtyPerPage until = getAllDataUntil sched getData page qtyPerPage until \<and>
      getAllFilteredData sched g page qtyPerPage filter_fn =
        getAllFilteredData sched getData page qtyPerPage filter_fn) \<and>
   snd (getAllData sched getData page qtyPerPage) \<noteq> [] \<and>
   snd (getAllDataUntil sched getData page qtyPerPage until) \<noteq> [] \<and>
   snd (getAllFilteredData sched getData page qtyPerPage filter_fn) \<noteq> []"
proof (intro conjI impI)
  assume p: "page \<in> {0, -3}"
  then have p1: "(if page < 1 then 1 else page) = 1" by auto
  show "hd (snd (getAllData sched getData page qtyPerPage)) = (1, clamp qtyPerPage 1 100)"
    using getAllData_calls [of sched getData page qtyPerPage] by (simp add: p1)
  show "hd (snd (getAllDataUntil sched getData page qtyPerPage until)) = (1, clamp qtyPerPage 1 100)"
    using getAllDataUntil_calls [of sched getData page qtyPerPage until] by (simp add: p1)
  show "hd (snd (getAllFilteredData sched getData page qtyPerPage filter_fn)) = (1, clamp qtyPerPage 1 100)"
    using getAllData_calls [of sched getData page qtyPerPage] by (simp add: p1 getAllFilteredData_calls)
  show "getAllData sched getData page qtyPerPage = getAllData sched getData 1 qtyPerPage"
    using getAllData_coerced [of sched getData page qtyPerPage]
      getAllData_coerced [of sched getData 1 qtyPerPage] by (simp add: p1)
  show "getAllDataUntil sched getData page qtyPerPage until = getAllDataUntil sched getData 1 qtyPerPage until"
    using getAllDataUntil_coerced [of sched getData page qtyPerPage until]
      getAllDataUntil_coerced [of sched getData 1 qtyPerPage until] by (simp add: p1)
  show "getAllFilteredData sched getData page qtyPerPage filter_fn =
      getAllFilteredData sched getData 1 qtyPerPage filter_fn"
    using getAllFilteredData_coerced [of sched getData page qtyPerPage filter_fn]
      getAllFilteredData_coerced [of sched getData 1 qtyPerPage filter_fn] by (simp add: p1)
next
  assume "(qtyPerPage, clamped) \<in> {(0, 1), (-5, 1), (500, 100)}"
  then have q: "clamp qtyPerPage 1 100 = clamped" and qq: "clamp clamped 1 100 = clamped"
    by (auto simp: clamp_def)
  show "clamp qtyPerPage 1 100 = clamped" by (rule q)
  show "\<forall>c\<in>set (snd (getAllData sched getData page qtyPerPage)). snd c = clamped"
    using getAllData_calls [of sched getData page qtyPerPage] by (simp add: q)
  show "\<forall>c\<in>set (snd (getAllDataUntil sched getData page qtyPerPage until)). snd c = clamped"
    using getAllDataUntil_calls [of sched getData page qtyPerPage until] by (simp add: q)
  show "\<forall>c\<in>set (snd (getAllFilteredData sched getData page qtyPerPage filter_fn)). snd c = clamped"
    using getAllData_calls [of sched getData page qtyPerPage] by (simp add: q getAllFilteredData_calls)
  show "getAllData sched getData page qtyPerPage = getAllData sched getData page clamped"
    using getAllData_coerced [of sched getData page qtyPerPage]
      getAllData_coerced [of sched getData page clamped] by (simp add: q qq)
  show "getAllDataUntil sched getData page qtyPerPage until = getAllDataUntil sched getData page clamped until"
    using getAllDataUntil_coerced [of sched getData page qtyPerPage until]
      getAllDataUntil_coerced [of sched getData page clamped until] by (simp add: q qq)
  show "getAllFilteredData sched getData page qtyPerPage filter_fn =
      getAllFilteredData sched getData page clamped filter_fn"
    using getAllFilteredData_coerced [of sched getData page qtyPerPage filter_fn]
      getAllFilteredData_coerced [of sched getData page clamped filter_fn] by (simp add: q qq)
next
  assume a: "\<forall>p. 1 \<le> p \<longrightarrow> g p (clamp qtyPerPage 1 100) = getData p (clamp qtyPerPage 1 100)"
  show "getAllData sched g page qtyPerPage = getAllData sched getData page qtyPerPage"
    using a by (rule getAllData_cong)
  show "getAllDataUntil sched g page qtyPerPage until = getAllDataUntil sched getData page qtyPerPage until"
    using a by (rule getAllDataUntil_cong)
  show "getAllFilteredData sched g page qtyPerPage filter_fn =
      getAllFilteredData sched getData page qtyPerPage filter_fn"
    using a by (rule getAllFilteredData_cong)
next
  show "snd (getAllData sched getData page qtyPerPage) \<noteq> []"
    using getAllData_calls [of sched getData page qtyPerPage] by simp
  show "snd (getAllDataUntil sched getData page qtyPerPage until) \<noteq> []"
    using getAllDataUntil_calls [of sched getData page qtyPerPage until] by simp
  show "snd (getAllFilteredData sched getData page qtyPerPage filter_fn) \<noteq> []"
    using getAllData_calls [of sched getData page qtyPerPage] by (simp add: getAllFilteredData_calls)
qed

theorem clamped_before_fetch_witness:
  "(-3::int) \<in> {0, -3} \<and> (500::int, 100::int) \<in> {(0, 1), (-5, 1), (500, 100)} \<and>
   strict_five_pages (-3) 500 = Inl (FetchError ''bad request'') \<and>
   strict_five_pages 1 500 = Inl (FetchError ''bad request'') \<and>
   strict_five_pages (-3) 100 = Inl (FetchError ''bad request'') \<and>
   getAllData reverse_completion strict_five_pages (-3) 500 =
     (Inr [1, 2, 3, 4, 5], [(1, 100), (2, 100), (3, 100), (4, 100), (5, 100)]) \<and>
   getAllDataUntil reverse_completion strict_five_pages (-3) 500 never =
     (Inr [], [(1, 100), (2, 100), (5, 100), (4, 100), (3, 100)]) \<and>
   getAllFilteredData reverse_completion strict_five_pages (-3) 500 rev =
     (Inr [5, 4, 3, 2, 1], [(1, 100), (2, 100), (3, 100), (4, 100), (5, 100)])"
proof -
  have a: "(-3::int) \<in> {0, -3}" and b: "(500::int, 100::int) \<in> {(0, 1), (-5, 1), (500, 100)}"
    by simp_all
  have c: "clamp 500 1 100 = 100" by (simp add: clamp_def)
  have g: "\<forall>p. 1 \<le> p \<longrightarrow> strict_five_pages p (clamp 500 1 100) = five_pages p (clamp 500 1 100)"
    by (simp add: strict_five_pages_def c)
  note t = clamped_before_fetch
    [where sched = reverse_completion and until = never and filter_fn = rev and clamped = 100
       and getData = five_pages and qtyPerPage = 500]
  from t [where g = strict_five_pages and page = "-3"] g
  have e1: "getAllData reverse_completion strict_five_pages (-3) 500 =
        getAllData reverse_completion five_pages (-3) 500"
    and f1: "getAllDataUntil reverse_completion strict_five_pages (-3) 500 never =
        getAllDataUntil reverse_completion five_pages (-3) 500 never"
    and h1: "getAllFilteredData reverse_completion strict_five_pages (-3) 500 rev =
        getAllFilteredData reverse_completion five_pages (-3) 500 rev"
    by blast+
  from t [where g = five_pages and page = "-3"] a
  have e2: "getAllData reverse_completion five_pages (-3) 500 =
        getAllData reverse_completion five_pages 1 500"
    and f2: "getAllDataUntil reverse_completion five_pages (-3) 500 never =
        getAllDataUntil reverse_completion five_pages 1 500 never"
    and h2: "getAllFilteredData reverse_completion five_pages (-3) 500 rev =
        getAllFilteredData reverse_completion five_pages 1 500 rev"
    by blast+
  from t [where g = five_pages and page = 1] b
  have e3: "getAllData reverse_completion five_pages 1 500 =
        getAllData reverse_completion five_pages 1 100"
    and f3: "getAllDataUntil reverse_completion five_pages 1 500 never =
        getAllDataUntil reverse_completion five_pages 1 100 never"
    and h3: "getAllFilteredData reverse_completion five_pages 1 500 rev =
        getAllFilteredData reverse_completion five_pages 1 100 rev"
    by blast+
  have s: "strict_five_pages (-3) 500 = Inl (FetchError ''bad request'')"
    "strict_five_pages 1 500 = Inl (FetchError ''bad request'')"
    "strict_five_pages (-3) 100 = Inl (FetchError ''bad request'')"
    by (simp_all add: strict_five_pages_def)
  show ?thesis
    unfolding e1 e2 e3 f1 f2 f3 h1 h2 h3 five_pages_run five_pages_search five_pages_filtered s
    using a b by simp
qed

text \<open>
  C4. For both \<^verbatim>\<open>getAllData\<close> and \<^verbatim>\<open>getAllDataUntil\<close>, if the seed fetch or any later page
  fetch fails, the whole operation fails with a terminal error (the process exits with code
  1) and no result sequence is returned. In four parts: (1) a rejected seed fetch ends both
  operations; (2) in \<^verbatim>\<open>getAllData\<close>, a rejected fetch of any page of the sweep
  \<open>2..totalPages\<close> ends the operation; (3) in \<^verbatim>\<open>getAllDataUntil\<close>, a rejected fetch in round
  \<open>j\<close> ends the operation unless an earlier round returned a match (the operation fetches
  nothing after a match); (4) so, when no page of \<open>2..totalPages\<close> is a match, a rejected
  fetch of any of these pages ends the operation.
\<close>

theorem fetch_failure_is_terminal:
  assumes "fair sched"
  shows
    "(isl (getData (if page < 1 then 1 else page) (clamp qtyPerPage 1 100)) \<longrightarrow>
        fst (getAllData sched getData page qtyPerPage) = Inl (ProcessExit 1) \<and>
        fst (getAllDataUntil sched getData page qtyPerPage until) = Inl (ProcessExit 1)) \<and>
     (getData (if page < 1 then 1 else page) (clamp qtyPerPage 1 100) = Inr (items, resp) \<and>
      toLinkHeader (ResponseObject resp) = Inr lh \<and>
      (\<exists>i\<in>{2..(case lh of None \<Rightarrow> 1 | Some h \<Rightarrow> totalPages h)}.
          isl (getData i (clamp qtyPerPage 1 100))) \<longrightarrow>
        fst (getAllData sched getData page qtyPerPage) = Inl (ProcessExit 1)) \<and>
     (getData (if page < 1 then 1 else page) (clamp qtyPerPage 1 100) = Inr (items, resp) \<and>
      \<not> until items \<and>
      toLinkHeader (ResponseObject resp) = Inr lh \<and>
      (case lh of None \<Rightarrow> 0 | Some h \<Rightarrow> totalPages h) = n \<and>
      j < num_rounds n \<and>
      (\<exists>p\<in>set (round_pages (fst (engine_groups n)) (snd (engine_groups n)) j).
          isl (getData p (clamp qtyPerPage 1 100))) \<and>
      (\<forall>k<j. \<not> round_hit getData (clamp qtyPerPage 1 100) until
          (fst (engine_groups n)) (snd (engine_groups n)) k) \<longrightarrow>
        fst (getAllDataUntil sched getData page qtyPerPage until) = Inl (ProcessExit 1)) \<and>
     (getData (if page < 1 then 1 else page) (clamp qtyPerPage 1 100) = Inr (items, resp) \<and>
      \<not> until items \<and>
      toLinkHeader (ResponseObject resp) = Inr lh \<and>
      (case lh of None \<Rightarrow> 0 | Some h \<Rightarrow> totalPages h) = n \<and>
      (\<exists>p\<in>{2..n}. isl (getData p (clamp qtyPerPage 1 100))) \<and>
      (\<forall>p\<in>{2..n}. \<not> (page_items getData (clamp qtyPerPage 1 100) p \<noteq> [] \<and>
          until (page_items getData (clamp qtyPerPage 1 100) p))) \<longrightarrow>
        fst (getAllDataUntil sched getData page qtyPerPage until) = Inl (ProcessExit 1))"
proof (intro conjI impI; (elim conjE)?)
  assume "isl (getData (if page < 1 then 1 else page) (clamp qtyPerPage 1 100))"
  then show "fst (getAllData sched getData page qtyPerPage) = Inl (ProcessExit 1)"
    and "fst (getAllDataUntil sched getData page qtyPerPage until) = Inl (ProcessExit 1)"
    by (simp_all add: getAllData_seed_rejected getAllDataUntil_seed_rejected)
next
  assume "getData (if page < 1 then 1 else page) (clamp qtyPerPage 1 100) = Inr (items, resp)"
    and "toLinkHeader (ResponseObject resp) = Inr lh"
    and "\<exists>i\<in>{2..(case lh of None \<Rightarrow> 1 | Some h \<Rightarrow> totalPages h)}.
          isl (getData i (clamp qtyPerPage 1 100))"
  with assms show "fst (getAllData sched getData page qtyPerPage) = Inl (ProcessExit 1)"
    by (rule getAllData_page_rejected [where getData = getData and q = qtyPerPage])
next
  assume "getData (if page < 1 then 1 else page) (clamp qtyPerPage 1 100) = Inr (items, resp)"
    and "\<not> until items"
    and "toLinkHeader (ResponseObject resp) = Inr lh"
    and "(case lh of None \<Rightarrow> 0 | Some h \<Rightarrow> totalPages h) = n"
    and "j < num_rounds n"
    and "\<exists>p\<in>set (round_pages (fst (engine_groups n)) (snd (engine_groups n)) j).
          isl (getData p (clamp qtyPerPage 1 100))"
    and "\<forall>k<j. \<not> round_hit getData (clamp qtyPerPage 1 100) until
          (fst (engine_groups n)) (snd (engine_groups n)) k"
  with assms show "fst (getAllDataUntil sched getData page qtyPerPage until) = Inl (ProcessExit 1)"
    by (rule getAllDataUntil_round_rejected [where getData = getData and q = qtyPerPage])
next
  assume "getData (if page < 1 then 1 else page) (clamp qtyPerPage 1 100) = Inr (items, resp)"
    and "\<not> until items"
    and "toLinkHeader (ResponseObject resp) = Inr lh"
    and "(case lh of None \<Rightarrow> 0 | Some h \<Rightarrow> totalPages h) = n"
    and "\<exists>p\<in>{2..n}. isl (getData p (clamp qtyPerPage 1 100))"
    and "\<forall>p\<in>{2..n}. \<not> (page_items getData (clamp qtyPerPage 1 100) p \<noteq> [] \<and>
          until (page_items getData (clamp qtyPerPage 1 100) p))"
  with assms show "fst (getAllDataUntil sched getData page qtyPerPage until) = Inl (ProcessExit 1)"
    by (rule getAllDataUntil_page_rejected [where getData = getData and q = qtyPerPage])
qed

theorem fetch_failure_is_terminal_witness:
  "fair reverse_completion \<and>
   isl (no_pages 1 100) \<and>
   fst (getAllData reverse_completion no_pages 1 100) = Inl (ProcessExit 1) \<and>
   fst (getAllDataUntil reverse_completion no_pages 1 100 never) = Inl (ProcessExit 1) \<and>
   five_pages_broken 1 100 = Inr ([1], response_with_last ''5'') \<and>
   toLinkHeader (ResponseObject (response_with_last ''5'')) = Inr (Some (parsed_last ''5'' 5)) \<and>
   totalPages (parsed_last ''5'' 5) = 5 \<and>
   isl (five_pages_broken 3 100) \<and>
   fst (getAllData reverse_completion five_pages_broken 1 100) = Inl (ProcessExit 1) \<and>
   \<not> never [1] \<and> (2::nat) < num_rounds 5 \<and>
   round_pages (fst (engine_groups 5)) (snd (engine_groups 5)) 2 = [3] \<and>
   fst (getAllDataUntil reverse_completion five_pages_broken 1 100 never) = Inl (ProcessExit 1)"
proof -
  let ?lh = "Some (parsed_last ''5'' 5)"
  have c: "clamp 100 1 100 = 100" by (simp add: clamp_def)
  have t: "totalPages (parsed_last ''5'' 5) = 5" by (simp add: parsed_last_def)
  have r3: "round_pages (fst (engine_groups 5)) (snd (engine_groups 5)) 2 = [3]"
    by (simp add: engine_groups_5 round_pages_def)
  have nr: "(2::nat) < num_rounds 5" by (simp add: num_rounds_def engine_groups_5)
  have b3: "isl (five_pages_broken 3 100)" by (simp add: five_pages_broken_def paged_def)
  have s0: "isl (no_pages (if (1::int) < 1 then 1 else 1) (clamp 100 1 100))"
    by (simp add: no_pages_def paged_def)
  have s1: "five_pages_broken (if (1::int) < 1 then 1 else 1) (clamp 100 1 100) =
      Inr ([1], response_with_last ''5'')"
    by (simp add: five_pages_broken_def paged_def)
  have n1: "\<not> never [1]" by (simp add: never_def)
  have n5: "(case ?lh of None \<Rightarrow> 0 | Some h \<Rightarrow> totalPages h) = 5" by (simp add: t)
  have bad_all: "\<exists>i\<in>{2..(case ?lh of None \<Rightarrow> 1 | Some h \<Rightarrow> totalPages h)}.
      isl (five_pages_broken i (clamp 100 1 100))"
    using b3 by (auto simp: t c intro!: bexI [of _ 3])
  have bad_round: "\<exists>p\<in>set (round_pages (fst (engine_groups 5)) (snd (engine_groups 5)) 2).
      isl (five_pages_broken p (clamp 100 1 100))"
    using b3 by (simp add: r3 c)
  have no_hit: "\<forall>k<2. \<not> round_hit five_pages_broken (clamp 100 1 100) never
      (fst (engine_groups 5)) (snd (engine_groups 5)) k"
    by (simp add: round_hit_def never_def)
  have bad_page: "\<exists>p\<in>{2..5}. isl (five_pages_broken p (clamp 100 1 100))"
    using b3 by (auto simp: c intro!: bexI [of _ 3])
  have no_match: "\<forall>p\<in>{2..5}. \<not> (page_items five_pages_broken (clamp 100 1 100) p \<noteq> [] \<and>
      never (page_items five_pages_broken (clamp 100 1 100) p))"
    by (simp add: never_def)
  note t0 = fetch_failure_is_terminal
    [OF fair_reverse_completion, where getData = no_pages and page = 1 and qtyPerPage = 100
       and until = never]
  note t1 = fetch_failure_is_terminal
    [OF fair_reverse_completion, where getData = five_pages_broken and page = 1 and qtyPerPage = 100
       and until = never and items = "[1]" and resp = "response_with_last ''5''" and lh = ?lh
       and n = 5 and j = 2]
  from t0 s0 have a0: "fst (getAllData reverse_completion no_pages 1 100) = Inl (ProcessExit 1)"
    and u0: "fst (getAllDataUntil reverse_completion no_pages 1 100 never) = Inl (ProcessExit 1)"
    by blast+
  from t1 s1 toLinkHeader_last5 bad_all
  have a1: "fst (getAllData reverse_completion five_pages_broken 1 100) = Inl (ProcessExit 1)"
    by blast
  from t1 s1 n1 toLinkHeader_last5 n5 nr bad_round no_hit
  have u1: "fst (getAllDataUntil reverse_completion five_pages_broken 1 100 never) = Inl (ProcessExit 1)"
    by blast
  from t1 s1 n1 toLinkHeader_last5 n5 bad_page no_match
  have u2: "fst (getAllDataUntil reverse_completion five_pages_broken 1 100 never) = Inl (ProcessExit 1)"
    by blast
  from s0 s1 have s0': "isl (no_pages 1 100)"
    and s1': "five_pages_broken 1 100 = Inr ([1], response_with_last ''5'')"
    by (simp_all add: c)
  from fair_reverse_completion s0' a0 u0 s1' toLinkHeader_last5 t b3 a1 n1 nr r3 u1 u2
  show ?thesis by blast
qed

end
